theory Spec2Isabelle
  imports Main "HOL-Library.AList" "HOL-Library.Word"
begin

section \<open>Data model\<close>

text \<open>
  A calendar date of the local calendar, as the number of days since 1970-01-01. The
  source keys the history by the rendering \<open>YYYY-MM-DD\<close> of the date (\<open>todayString\<close>,
  \<open>formatDate\<close>); for the years of four digits (1000 to 9999) the renderings are ordered
  as the days are, so \<open>Object.keys(dailyHistory).sort()\<close> is the list of days in ascending
  order.
\<close>

type_synonym date = int

text \<open>
  A string of the page is a sequence of 16-bit code units. The text of a task is what the
  user typed, so it is kept as code units; identifiers, time stamps, message types and
  badge texts are made by the program from ASCII and are kept as \<open>string\<close>.
\<close>

type_synonym codeUnit = "16 word"

type_synonym jsString = "codeUnit list"

text \<open>A task of the live list, as \<open>createTask\<close> builds it.\<close>

record task =
  task_id :: string
  task_text :: jsString
  task_done :: bool
  task_createdAt :: string

text \<open>The copy of a task that a day's snapshot keeps: \<open>{ text, done }\<close>.\<close>

record snapTask =
  snap_text :: jsString
  snap_done :: bool

text \<open>The value stored under a date: \<open>{ tasks: simplified, allDone }\<close>.\<close>

record dayEntry =
  entry_tasks :: "snapTask list"
  allDone :: bool

text \<open>
  The object \<open>dailyHistory\<close>: its properties in insertion order. Assigning to a property
  that exists replaces its value in place, assigning to a new one appends it; that is
  \<open>AList.update\<close>. An object never holds a key twice, so the lists that stand for
  objects have distinct keys.
\<close>

type_synonym history = "(date \<times> dayEntry) list"

text \<open>The message the page sends to the service worker.\<close>

record message =
  msg_type :: string
  msg_count :: "int option"

text \<open>
  What the page's functions read and write: the keys \<open>tasks\<close>, \<open>dailyHistory\<close> and
  \<open>badgeEnabled\<close> of \<open>chrome.storage.local\<close> (\<open>None\<close> for a key that was never set), the
  module variable \<open>dailyHistory\<close>, and the messages handed to
  \<open>chrome.runtime.sendMessage\<close>, oldest first.
\<close>

record state =
  stored_tasks :: "task list option"
  stored_dailyHistory :: "history option"
  stored_badgeEnabled :: "bool option"
  dailyHistory :: history
  sent :: "message list"

record streak =
  current :: nat
  best :: nat

section \<open>Strings\<close>

text \<open>
  The code units that \<open>String.prototype.trim\<close> strips, the white space and the line
  terminators of ECMAScript: U+0009 to U+000D, U+0020, U+00A0, U+1680, U+2000 to U+200A,
  U+2028, U+2029, U+202F, U+205F, U+3000 and U+FEFF. All of them are single code units.
\<close>

definition isWhiteSpace :: "codeUnit \<Rightarrow> bool" where
  "isWhiteSpace c =
     ((9 \<le> c \<and> c \<le> 13) \<or> c = 32 \<or> c = 160 \<or> c = 5760 \<or> (8192 \<le> c \<and> c \<le> 8202)
      \<or> c = 8232 \<or> c = 8233 \<or> c = 8239 \<or> c = 8287 \<or> c = 12288 \<or> c = 65279)"

definition trim :: "jsString \<Rightarrow> jsString" where
  "trim s = rev (dropWhile isWhiteSpace (rev (dropWhile isWhiteSpace s)))"

text \<open>The code units of a string of ASCII characters.\<close>

definition ascii :: "string \<Rightarrow> jsString" where
  "ascii s = map (\<lambda>c. of_nat (of_char c)) s"

text \<open>
  \<open>String(n)\<close> for an integer \<open>n\<close> with \<open>|n| < 2^53\<close>, where the number is the integer
  itself: its decimal numeral. (A number beyond that range is rendered by its shortest
  round-trip digits, which this function does not give.)
\<close>

fun digitsOf :: "nat \<Rightarrow> string" where
  "digitsOf n =
     (if n < 10 then [char_of (48 + n)]
      else digitsOf (n div 10) @ [char_of (48 + n mod 10)])"

declare digitsOf.simps [simp del]

definition numberToString :: "int \<Rightarrow> string" where
  "numberToString n = (if n < 0 then CHR ''-'' # digitsOf (nat (- n)) else digitsOf (nat n))"

text \<open>The number a string of decimal digits denotes.\<close>

definition decimalValue :: "string \<Rightarrow> nat" where
  "decimalValue s = foldl (\<lambda>a c. 10 * a + (of_char c - 48)) 0 s"

definition isDigit :: "char \<Rightarrow> bool" where
  "isDigit c = (48 \<le> (of_char c :: nat) \<and> (of_char c :: nat) \<le> 57)"

section \<open>Clock and calendar of the host\<close>

text \<open>
  The \<open>Date\<close> of the host, after the day arithmetic of ECMAScript. A time value is a
  number of milliseconds since 1970-01-01T00:00:00Z; a \<open>Date\<close> holds a time value or is
  invalid (\<open>None\<close>, the time value \<open>NaN\<close>). \<open>Day\<close>, \<open>TimeWithinDay\<close>, \<open>MakeDate\<close> and
  \<open>TimeClip\<close>:
\<close>

abbreviation msPerDay :: int where
  "msPerDay \<equiv> 86400000"

definition dayNumber :: "int \<Rightarrow> int" where
  "dayNumber t = t div msPerDay"

definition timeWithinDay :: "int \<Rightarrow> int" where
  "timeWithinDay t = t mod msPerDay"

definition makeDate :: "int \<Rightarrow> int \<Rightarrow> int" where
  "makeDate dy tm = dy * msPerDay + tm"

definition timeClip :: "int \<Rightarrow> int option" where
  "timeClip t = (if \<bar>t\<bar> \<le> 8640000000000000 then Some t else None)"

text \<open>\<open>DayFromYear\<close>, \<open>InLeapYear\<close>, and the day within the year at which a month begins.\<close>

definition dayFromYear :: "int \<Rightarrow> int" where
  "dayFromYear y =
     365 * (y - 1970) + (y - 1969) div 4 - (y - 1901) div 100 + (y - 1601) div 400"

definition inLeapYear :: "int \<Rightarrow> bool" where
  "inLeapYear y = (y mod 4 = 0 \<and> (y mod 100 \<noteq> 0 \<or> y mod 400 = 0))"

definition monthOffset :: "bool \<Rightarrow> int \<Rightarrow> int" where
  "monthOffset leap mn =
     [0, 31, 59, 90, 120, 151, 181, 212, 243, 273, 304, 334] ! nat mn
       + (if leap \<and> 2 \<le> mn then 1 else 0)"

text \<open>
  \<open>MakeDay\<close>: the day number of the day \<open>dt\<close> of the month \<open>month\<close> (counted from 0) of the
  year \<open>year\<close>, with a month or a day out of range carried over.
\<close>

definition makeDay :: "int \<Rightarrow> int \<Rightarrow> int \<Rightarrow> date" where
  "makeDay year month dt =
     (let ym = year + month div 12; mn = month mod 12
      in dayFromYear ym + monthOffset (inLeapYear ym) mn + dt - 1)"


text \<open>
  \<open>YearFromTime\<close>, on day numbers: the largest year that begins on or before the day. The
  search goes down from a year that begins after the day; it ends because every year
  begins later than the year before it.
\<close>

function yearDown :: "int \<Rightarrow> date \<Rightarrow> int" where
  "yearDown y d = (if d < dayFromYear y then yearDown (y - 1) d else y)"
  by pat_completeness auto
termination
proof (relation "measure (\<lambda>(y, d). nat (dayFromYear y - d))")
  show "wf (measure (\<lambda>(y, d). nat (dayFromYear y - d)))"
    by simp
next
  fix y d :: int
  assume less: "d < dayFromYear y"
  have a: "(y - 1 - 1969) div 4 \<le> (y - 1969) div 4"
    by (rule zdiv_mono1) simp_all
  have "(y - 1901) div 100 \<le> (y - 1 - 1901 + 100) div 100"
    by (rule zdiv_mono1) simp_all
  then have b: "(y - 1901) div 100 \<le> (y - 1 - 1901) div 100 + 1"
    by simp
  have c: "(y - 1 - 1601) div 400 \<le> (y - 1601) div 400"
    by (rule zdiv_mono1) simp_all
  have "365 * (y - 1 - 1970) + p' - q' + r' < 365 * (y - 1970) + p - q + r"
    if "p' \<le> p" "q \<le> q' + 1" "r' \<le> r" for p :: int and p' :: int and q :: int
      and q' :: int and r :: int and r' :: int
    using that by simp
  from this [OF a b c] have "dayFromYear (y - 1) < dayFromYear y"
    unfolding dayFromYear_def .
  with less show "((y - 1, d), (y, d)) \<in> measure (\<lambda>(y, d). nat (dayFromYear y - d))"
    by simp
qed

declare yearDown.simps [simp del]

definition yearFromDay :: "date \<Rightarrow> int" where
  "yearFromDay d = yearDown (1970 + max 0 (d div 365 + 1)) d"

text \<open>\<open>DayWithinYear\<close>, \<open>MonthFromTime\<close> and \<open>DateFromTime\<close>, on day numbers.\<close>

definition dayWithinYear :: "date \<Rightarrow> int" where
  "dayWithinYear d = d - dayFromYear (yearFromDay d)"

definition monthFromDay :: "date \<Rightarrow> int" where
  "monthFromDay d =
     (let w = dayWithinYear d; l = (if inLeapYear (yearFromDay d) then 1 else 0)
      in if w < 31 then 0
         else if w < 59 + l then 1
         else if w < 90 + l then 2
         else if w < 120 + l then 3
         else if w < 151 + l then 4
         else if w < 181 + l then 5
         else if w < 212 + l then 6
         else if w < 243 + l then 7
         else if w < 273 + l then 8
         else if w < 304 + l then 9
         else if w < 334 + l then 10
         else 11)"

definition dateFromDay :: "date \<Rightarrow> int" where
  "dateFromDay d =
     dayWithinYear d - monthOffset (inLeapYear (yearFromDay d)) (monthFromDay d) + 1"

text \<open>
  The time zone of the host is the function \<open>LocalTZA(t, isUTC)\<close> of ECMAScript: for a
  time value \<open>t\<close> (\<open>isUTC\<close> true) the offset of local time from UTC in milliseconds at that
  moment, and for a local time \<open>t\<close> (\<open>isUTC\<close> false) the offset by which the host reads
  that local time. Where the clock is set forward, the local times that are skipped are
  read with the offset from before the change. \<open>LocalTime\<close> and \<open>UTC\<close>:
\<close>

type_synonym host = "int \<Rightarrow> bool \<Rightarrow> int"

definition localTime :: "host \<Rightarrow> int \<Rightarrow> int" where
  "localTime H t = t + H t True"

definition utcTime :: "host \<Rightarrow> int \<Rightarrow> int" where
  "utcTime H l = l - H l False"

text \<open>
  The methods of \<open>Date\<close> that the page uses, on a valid time value: \<open>getDate()\<close>,
  \<open>getDay()\<close>, \<open>setDate(dt)\<close> (which may leave the \<open>Date\<close> invalid), and the key that
  \<open>formatDate\<close> and \<open>todayString\<close> render, the local day of the time value.
\<close>

definition getDate :: "host \<Rightarrow> int \<Rightarrow> int" where
  "getDate H t = dateFromDay (dayNumber (localTime H t))"


definition setDate :: "host \<Rightarrow> int \<Rightarrow> int \<Rightarrow> int option" where
  "setDate H t dt =
     (let l = localTime H t;
          l' = makeDate (makeDay (yearFromDay (dayNumber l)) (monthFromDay (dayNumber l)) dt)
                 (timeWithinDay l)
      in timeClip (utcTime H l'))"

definition formatDate :: "host \<Rightarrow> int \<Rightarrow> date" where
  "formatDate H t = dayNumber (localTime H t)"



text \<open>\<open>new Date(key + "T00:00:00")\<close>: the key read as the local midnight of its day.\<close>

definition parseKey :: "host \<Rightarrow> date \<Rightarrow> int option" where
  "parseKey H k = timeClip (utcTime H (makeDate k 0))"

text \<open>
  A local time that the host's clock shows: the \<open>Date\<close> built from it is valid and reads
  as that local time again. A local time that the clock skips is not of this kind.
\<close>

definition localExists :: "host \<Rightarrow> int \<Rightarrow> bool" where
  "localExists H l =
     (case timeClip (utcTime H l) of None \<Rightarrow> False | Some t \<Rightarrow> localTime H t = l)"

section \<open>Task store\<close>

text \<open>\<open>loadTasks\<close>: \<open>(await storageGet("tasks")) || []\<close>.\<close>

definition loadTasks :: "state \<Rightarrow> task list" where
  "loadTasks s = (case stored_tasks s of None \<Rightarrow> [] | Some ts \<Rightarrow> ts)"

text \<open>
  \<open>createTask\<close>. The identifier (\<open>crypto.randomUUID()\<close>) and the time stamp
  (\<open>new Date().toISOString()\<close>) come from the host and are arguments here.
\<close>

definition createTask :: "string \<Rightarrow> string \<Rightarrow> jsString \<Rightarrow> task" where
  "createTask newId now txt =
     \<lparr>task_id = newId, task_text = trim txt, task_done = False, task_createdAt = now\<rparr>"

text \<open>\<open>updateBadge\<close>: the message with the number of tasks not done, or \<open>null\<close>.\<close>

definition updateBadge :: "task list \<Rightarrow> state \<Rightarrow> state" where
  "updateBadge tasks s =
     (let enabled = (stored_badgeEnabled s = Some True);
          remaining = length (filter (\<lambda>t. \<not> task_done t) tasks)
      in s\<lparr>sent := sent s @
            [\<lparr>msg_type = ''UPDATE_BADGE'',
              msg_count = (if enabled then Some (int remaining) else None)\<rparr>]\<rparr>)"

text \<open>
  \<open>snapshotToday\<close>, with the local date \<open>todayString()\<close> as the argument \<open>today\<close>. The calls
  that only repaint the page (\<open>updateStreak\<close>, \<open>renderCalendar\<close>) leave the state as it is.
\<close>

definition simplified :: "task list \<Rightarrow> snapTask list" where
  "simplified tasks = map (\<lambda>t. \<lparr>snap_text = task_text t, snap_done = task_done t\<rparr>) tasks"

definition snapshotOf :: "task list \<Rightarrow> dayEntry" where
  "snapshotOf tasks =
     \<lparr>entry_tasks = simplified tasks,
      allDone = (length tasks > 0 \<and> list_all task_done tasks)\<rparr>"

text \<open>\<open>(await storageGet("dailyHistory")) || {}\<close>.\<close>

definition storedHistory :: "state \<Rightarrow> history" where
  "storedHistory s = (case stored_dailyHistory s of None \<Rightarrow> [] | Some h \<Rightarrow> h)"

definition snapshotToday :: "date \<Rightarrow> task list \<Rightarrow> state \<Rightarrow> state" where
  "snapshotToday today tasks s =
     (let h = storedHistory s;
          h' = AList.update today (snapshotOf tasks) h
      in s\<lparr>stored_dailyHistory := Some h', dailyHistory := h'\<rparr>)"

text \<open>\<open>loadHistory\<close>.\<close>

definition loadHistory :: "state \<Rightarrow> state" where
  "loadHistory s = s\<lparr>dailyHistory := storedHistory s\<rparr>"

text \<open>\<open>saveTasks\<close>: store the list, send the badge message, snapshot the day.\<close>

definition saveTasks :: "date \<Rightarrow> task list \<Rightarrow> state \<Rightarrow> state" where
  "saveTasks today tasks s =
     snapshotToday today tasks (updateBadge tasks (s\<lparr>stored_tasks := Some tasks\<rparr>))"

definition addTask :: "date \<Rightarrow> string \<Rightarrow> string \<Rightarrow> jsString \<Rightarrow> state \<Rightarrow> state" where
  "addTask today newId now txt s =
     (if trim txt = [] then s
      else saveTasks today (loadTasks s @ [createTask newId now txt]) s)"

text \<open>
  \<open>toggleTask\<close>: \<open>tasks.find\<close> returns the first task with the identifier, and the
  assignment to its \<open>done\<close> changes that element of the array.
\<close>

fun toggleFound :: "string \<Rightarrow> task list \<Rightarrow> task list" where
  "toggleFound i [] = []"
| "toggleFound i (t # ts) =
     (if task_id t = i then t\<lparr>task_done := \<not> task_done t\<rparr> # ts else t # toggleFound i ts)"

definition toggleTask :: "date \<Rightarrow> string \<Rightarrow> state \<Rightarrow> state" where
  "toggleTask today i s = saveTasks today (toggleFound i (loadTasks s)) s"

definition deleteTask :: "date \<Rightarrow> string \<Rightarrow> state \<Rightarrow> state" where
  "deleteTask today i s = saveTasks today (filter (\<lambda>t. task_id t \<noteq> i) (loadTasks s)) s"

definition clearCompleted :: "date \<Rightarrow> state \<Rightarrow> state" where
  "clearCompleted today s = saveTasks today (filter (\<lambda>t. \<not> task_done t) (loadTasks s)) s"

text \<open>
  The loop of \<open>deleteLastTask\<close>, \<open>for (let i = tasks.length - 1; i >= 0; i--)\<close>. The counter
  \<open>n\<close> is \<open>i + 1\<close>, so the loop ends at \<open>n = 0\<close>; \<open>tasks.splice(i, 1)\<close> removes the element at
  \<open>i\<close>. \<open>None\<close>: the loop ended without a task that is not done, and nothing is saved.
\<close>

fun deleteLastLoop :: "task list \<Rightarrow> nat \<Rightarrow> task list option" where
  "deleteLastLoop tasks 0 = None"
| "deleteLastLoop tasks (Suc i) =
     (if \<not> task_done (tasks ! i) then Some (take i tasks @ drop (Suc i) tasks)
      else deleteLastLoop tasks i)"

definition deleteLastTask :: "date \<Rightarrow> state \<Rightarrow> state" where
  "deleteLastTask today s =
     (case deleteLastLoop (loadTasks s) (length (loadTasks s)) of
        None \<Rightarrow> s
      | Some tasks \<Rightarrow> saveTasks today tasks s)"

text \<open>
  The invariant of the stored task list that \<open>addTask\<close> establishes: the text of every
  task is not empty and \<open>trim\<close> leaves it as it is.
\<close>

definition textInvariant :: "task list \<Rightarrow> bool" where
  "textInvariant ts = (\<forall>t\<in>set ts. task_text t \<noteq> [] \<and> trim (task_text t) = task_text t)"


section \<open>Streak engine\<close>

text \<open>\<open>dailyHistory[key] && dailyHistory[key].allDone\<close>.\<close>

definition isAllDone :: "history \<Rightarrow> date \<Rightarrow> bool" where
  "isAllDone h k = (case map_of h k of None \<Rightarrow> False | Some e \<Rightarrow> allDone e)"

text \<open>
  The loop \<open>while (true)\<close> of \<open>calculateStreak\<close>: \<open>d\<close> is the \<open>Date\<close> of the cursor, \<open>cur\<close> the
  count so far. An invalid \<open>Date\<close> is rendered as \<open>NaN-NaN-NaN\<close>, which is no key, so the
  loop stops there. The loop ends only when it meets a day that is missing or not all
  done; on a host where \<open>d.setDate(d.getDate() - 1)\<close> comes back to a day it has left, it
  may run forever, and the value \<open>None\<close> stands for a loop that does not end.
\<close>

partial_function (option) walkBack :: "host \<Rightarrow> history \<Rightarrow> int option \<Rightarrow> nat \<Rightarrow> nat option" where
  "walkBack H h d cur =
     (case d of
        None \<Rightarrow> Some cur
      | Some t \<Rightarrow>
          if isAllDone h (formatDate H t)
          then walkBack H h (setDate H t (getDate H t - 1)) (cur + 1)
          else Some cur)"

declare walkBack.simps [code]

text \<open>
  \<open>diff === 1\<close> for \<open>diff = (curr - prev) / (1000 * 60 * 60 * 24)\<close>: the time values are
  whole numbers of milliseconds, and the quotient is \<open>1\<close> exactly when they are
  \<open>86400000\<close> apart; with an invalid \<open>Date\<close> the quotient is \<open>NaN\<close>.
\<close>

definition diffIsOne :: "host \<Rightarrow> date \<Rightarrow> date \<Rightarrow> bool" where
  "diffIsOne H prevDay currDay =
     (case parseKey H prevDay of
        None \<Rightarrow> False
      | Some p \<Rightarrow>
          (case parseKey H currDay of
             None \<Rightarrow> False
           | Some c \<Rightarrow> c - p = 1000 * 60 * 60 * 24))"

text \<open>
  The loop \<open>for (let i = 0; i < allDates.length; i++)\<close> of \<open>calculateStreak\<close>, with the
  variables \<open>best\<close> and \<open>run\<close>. Every element of \<open>allDates\<close> is a key of the history, so the
  read \<open>dailyHistory[allDates[i]]\<close> finds an entry.
\<close>

function bestLoop :: "host \<Rightarrow> history \<Rightarrow> date list \<Rightarrow> nat \<Rightarrow> nat \<Rightarrow> nat \<Rightarrow> nat" where
  "bestLoop H h allDates i bst run =
     (if i < length allDates then
        (if isAllDone h (allDates ! i) then
           (let run' =
              (if i = 0 then 1
               else if diffIsOne H (allDates ! (i - 1)) (allDates ! i)
                       \<and> isAllDone h (allDates ! (i - 1))
                    then run + 1
                    else 1);
                bst' = (if run' > bst then run' else bst)
            in bestLoop H h allDates (i + 1) bst' run')
         else bestLoop H h allDates (i + 1) bst 0)
      else bst)"
  by pat_completeness auto
termination
  by (relation "measure (\<lambda>(H, h, allDates, i, bst, run). length allDates - i)") auto

declare bestLoop.simps [simp del]

text \<open>
  The value the loop gives \<open>run\<close> at an all-done date at index \<open>i\<close>, by name, for the
  statements about the loop.
\<close>

definition nextRun :: "host \<Rightarrow> history \<Rightarrow> date list \<Rightarrow> nat \<Rightarrow> nat \<Rightarrow> nat" where
  "nextRun H h allDates i run =
     (if i = 0 then 1
      else if diffIsOne H (allDates ! (i - 1)) (allDates ! i)
              \<and> isAllDone h (allDates ! (i - 1))
           then run + 1
           else 1)"

text \<open>
  \<open>calculateStreak\<close>, on the module variable \<open>dailyHistory\<close> (here \<open>h\<close>), on the host \<open>H\<close> at
  the time \<open>now\<close>, the time value of \<open>new Date()\<close> (\<open>todayString()\<close> reads the clock a
  second time, within the same call; the two readings are taken to be the same moment).
  Both branches of the test of today's entry step the cursor back once. The result is
  \<open>None\<close> when the walk does not end.
\<close>

definition calculateStreak :: "host \<Rightarrow> history \<Rightarrow> int \<Rightarrow> streak option" where
  "calculateStreak H h now =
     (let dates = sort (map fst h) in
      if length dates = 0 then Some \<lparr>current = 0, best = 0\<rparr>
      else
        (let todayKey = formatDate H now;
             start = (if isAllDone h todayKey then 1 else 0);
             d = setDate H now (getDate H now - 1)
         in case walkBack H h d start of
              None \<Rightarrow> None
            | Some cur \<Rightarrow>
                (let allDates = sort dates;
                     bst = bestLoop H h allDates 0 0 0
                 in Some \<lparr>current = cur, best = max bst cur\<rparr>)))"

text \<open>
  The walk of the specification, by calendar days: from the day \<open>d\<close>, one is counted for
  every day with an all-done entry, and the cursor moves to the day before, up to the
  first day that is missing or not all done. Every round that goes on has found the
  cursor's day among the keys, and the keys at or below the cursor become fewer, so the
  walk ends.
\<close>

function specWalk :: "history \<Rightarrow> date \<Rightarrow> nat \<Rightarrow> nat" where
  "specWalk h d cur = (if isAllDone h d then specWalk h (d - 1) (cur + 1) else cur)"
  by pat_completeness auto
termination
proof (relation "measure (\<lambda>(h, d, cur). card {k \<in> fst ` set h. k \<le> d})")
  show "wf (measure (\<lambda>(h, d, cur). card {k \<in> fst ` set h. k \<le> d}))"
    by simp
next
  fix h :: history and d :: date and cur :: nat
  assume "isAllDone h d"
  then have mem: "d \<in> fst ` set h"
    by (auto simp: isAllDone_def split: option.splits dest!: map_of_SomeD intro: rev_image_eqI)
  have fin: "finite {k \<in> fst ` set h. k \<le> d}"
    by simp
  have "{k \<in> fst ` set h. k \<le> d - 1} \<subset> {k \<in> fst ` set h. k \<le> d}"
    using mem by auto
  then have "card {k \<in> fst ` set h. k \<le> d - 1} < card {k \<in> fst ` set h. k \<le> d}"
    using fin by (rule psubset_card_mono [rotated])
  then show "((h, d - 1, cur + 1), (h, d, cur))
      \<in> measure (\<lambda>(h, d, cur). card {k \<in> fst ` set h. k \<le> d})"
    by simp
qed

declare specWalk.simps [simp del]

text \<open>
  The current streak as the specification words it: one for today when today's entry
  is there and all done, and one for each day of the unbroken run of all-done days that
  ends yesterday, that is, the number of days before the first day, going back from
  yesterday, that is missing or not all done.
\<close>

definition specCurrent :: "history \<Rightarrow> date \<Rightarrow> nat" where
  "specCurrent h today =
     (if isAllDone h today then 1 else 0)
       + (LEAST n. \<not> isAllDone h (today - 1 - int n))"

text \<open>
  The scan of the best streak as the specification words it, over the recorded dates in
  ascending order: an all-done date extends the run when it is the first dated entry or
  the calendar day before it is in the history and all done, and restarts the run at 1
  otherwise; a date that is not all done resets the run to 0; the result is the longest
  run seen.
\<close>

fun specScan :: "history \<Rightarrow> bool \<Rightarrow> date list \<Rightarrow> nat \<Rightarrow> nat \<Rightarrow> nat" where
  "specScan h first [] run bst = bst"
| "specScan h first (d # ds) run bst =
     (if isAllDone h d then
        (let run' = (if first \<or> isAllDone h (d - 1) then run + 1 else 1)
         in specScan h False ds run' (max bst run'))
      else specScan h False ds 0 bst)"

text \<open>The best streak of the specification: the larger of the scan and the current streak.\<close>

definition specBest :: "history \<Rightarrow> nat \<Rightarrow> nat" where
  "specBest h cur = max (specScan h True (sort (map fst h)) 0 0) cur"

section \<open>Calendar view\<close>












section \<open>Service worker\<close>

text \<open>The badge of the extension's action.\<close>

record badge =
  badge_text :: string
  badge_color :: string

text \<open>The listener of \<open>chrome.runtime.onMessage\<close>.\<close>

definition onMessage :: "message \<Rightarrow> badge \<Rightarrow> badge" where
  "onMessage msg b =
     (if msg_type msg \<noteq> ''UPDATE_BADGE'' then b
      else case msg_count msg of
        None \<Rightarrow> b\<lparr>badge_text := ''''\<rparr>
      | Some count \<Rightarrow>
          b\<lparr>badge_text := (if count > 0 then numberToString count else ''''),
            badge_color := ''#3a7a4a''\<rparr>)"


section \<open>Sample inputs\<close>

text \<open>Three tasks and the state of a fresh installation, for the concrete instances below.\<close>

definition taskA :: task where
  "taskA = \<lparr>task_id = ''a1'', task_text = ascii ''write report'', task_done = True,
            task_createdAt = ''2026-11-02T08:00:00.000Z''\<rparr>"

definition taskB :: task where
  "taskB = \<lparr>task_id = ''b2'', task_text = ascii ''call bank'', task_done = False,
            task_createdAt = ''2026-11-02T08:05:00.000Z''\<rparr>"

definition taskC :: task where
  "taskC = \<lparr>task_id = ''c3'', task_text = ascii ''water plants'', task_done = True,
            task_createdAt = ''2026-11-02T08:10:00.000Z''\<rparr>"

definition freshState :: state where
  "freshState = \<lparr>stored_tasks = None, stored_dailyHistory = None, stored_badgeEnabled = None,
                 dailyHistory = [], sent = []\<rparr>"

text \<open>A state whose stored history has an entry for 2026-11-01 (day 20758).\<close>

definition secondDayState :: state where
  "secondDayState = freshState\<lparr>stored_dailyHistory := Some [(20758, snapshotOf [taskA])]\<rparr>"

text \<open>A state with three stored tasks: done, open, done.\<close>

definition threeTasksState :: state where
  "threeTasksState = freshState\<lparr>stored_tasks := Some [taskA, taskB, taskC]\<rparr>"

text \<open>
  Hosts. UTC. New York in March 2026, where the clock goes from UTC-5 to UTC-4 on
  2026-03-08 (day 20520) at 02:00 local time, 07:00 UTC. Nuuk in March 2026, where the
  clock goes from UTC-2 to UTC-1 on 2026-03-29 at 01:00 UTC, which is 23:00 on Saturday
  2026-03-28 (day 20540) local time: the hour from 23:00 to midnight of that Saturday is
  skipped. Apia in December 2011, where the clock went from UTC-10 to UTC+14 at the end
  of 2011-12-29, 10:00 UTC on 2011-12-30: the whole of 2011-12-30 (day 15338) was
  skipped. Kiritimati in December 1994, where the clock went from UTC-10 to UTC+14 at the
  end of 1994-12-30, 10:00 UTC on 1994-12-31: the whole of 1994-12-31 (day 9130) was
  skipped.
\<close>

definition utc :: host where
  "utc = (\<lambda>t isUTC. 0)"

definition newYork :: host where
  "newYork = (\<lambda>t isUTC.
     if isUTC then (if t < 20520 * msPerDay + 25200000 then - 18000000 else - 14400000)
     else (if t < 20520 * msPerDay + 10800000 then - 18000000 else - 14400000))"

definition nuuk :: host where
  "nuuk = (\<lambda>t isUTC.
     if isUTC then (if t < 20541 * msPerDay + 3600000 then - 7200000 else - 3600000)
     else (if t < 20541 * msPerDay then - 7200000 else - 3600000))"

definition apia :: host where
  "apia = (\<lambda>t isUTC.
     if isUTC then (if t < 15338 * msPerDay + 36000000 then - 36000000 else 50400000)
     else (if t < 15339 * msPerDay then - 36000000 else 50400000))"



definition noonMar20NewYork :: int where
  "noonMar20NewYork = 20532 * msPerDay + 57600000"

definition lateMar29Nuuk :: int where
  "lateMar29Nuuk = 20542 * msPerDay + 1800000"

definition noonDec31Apia :: int where
  "noonDec31Apia = 15338 * msPerDay + 79200000"

text \<open>An entry with one task done, and one with one task open.\<close>

definition doneEntry :: dayEntry where
  "doneEntry = \<lparr>entry_tasks = [\<lparr>snap_text = ascii ''write report'', snap_done = True\<rparr>],
                allDone = True\<rparr>"

definition openEntry :: dayEntry where
  "openEntry = \<lparr>entry_tasks = [\<lparr>snap_text = ascii ''call bank'', snap_done = False\<rparr>],
                allDone = False\<rparr>"

text \<open>
  Today and the three days before it, all done: 2026-10-30 to 2026-11-02 (days 20756 to
  20759).
\<close>

definition fourDays :: history where
  "fourDays = [(20756, doneEntry), (20757, doneEntry), (20758, doneEntry), (20759, doneEntry)]"

text \<open>The same for 2026-03-29: 2026-03-26 to 2026-03-29 (days 20538 to 20541).\<close>

definition fourDaysMarch :: history where
  "fourDaysMarch = [(20538, doneEntry), (20539, doneEntry), (20540, doneEntry), (20541, doneEntry)]"

text \<open>One day, 2011-12-31 (day 15339), all done.\<close>

definition oneDay :: history where
  "oneDay = [(15339, doneEntry)]"


text \<open>
  Three days done in a row, 2026-03-07 to 2026-03-09 (days 20519 to 20521), and
  2026-03-20 (day 20532) with an open task.
\<close>

definition marchDays :: history where
  "marchDays = [(20519, doneEntry), (20520, doneEntry), (20521, doneEntry), (20532, openEntry)]"

text \<open>A badge that shows 7.\<close>

definition oldBadge :: badge where
  "oldBadge = \<lparr>badge_text = ''7'', badge_color = ''#3a7a4a''\<rparr>"

section \<open>Properties of the clock and calendar\<close>


















lemma monthFromDay_range: "0 \<le> monthFromDay d \<and> monthFromDay d \<le> 11"
  by (simp add: monthFromDay_def Let_def)

text \<open>
  The fields of a day give the day back: \<open>MakeDay\<close> of the year, the month and the date
  of a day is the day, and with another date the day that many days away.
\<close>

lemma makeDay_fields:
  "makeDay (yearFromDay d) (monthFromDay d) dt = d - dateFromDay d + dt"
proof -
  have r: "0 \<le> monthFromDay d" "monthFromDay d < 12"
    using monthFromDay_range [of d] by simp_all
  then have "monthFromDay d div 12 = 0" "monthFromDay d mod 12 = monthFromDay d"
    by simp_all
  then show ?thesis
    by (simp add: makeDay_def Let_def dateFromDay_def dayWithinYear_def)
qed

lemma day_back:
  "makeDate (dayNumber l - 1) (timeWithinDay l) = l - msPerDay"
proof -
  have "l = msPerDay * (l div msPerDay) + l mod msPerDay"
    by simp
  then show ?thesis
    unfolding makeDate_def dayNumber_def timeWithinDay_def by (simp add: algebra_simps)
qed

text \<open>
  \<open>d.setDate(d.getDate() - 1)\<close> builds the \<open>Date\<close> of the local time one day before the
  local time of \<open>d\<close>. Where the host's clock shows that local time, the \<open>Date\<close> is valid
  and its key is the key of the day before; where the clock skips it, the \<open>Date\<close> is the
  one the host puts in its place.
\<close>

lemma setDate_back:
  "setDate H t (getDate H t - 1) = timeClip (utcTime H (localTime H t - msPerDay))"
proof -
  have "makeDay (yearFromDay (dayNumber (localTime H t)))
          (monthFromDay (dayNumber (localTime H t)))
          (dateFromDay (dayNumber (localTime H t)) - 1)
      = dayNumber (localTime H t) - 1"
    by (simp add: makeDay_fields)
  then show ?thesis
    by (simp add: setDate_def getDate_def Let_def day_back)
qed

lemma dayNumber_back: "dayNumber (l - int k * msPerDay) = dayNumber l - int k"
proof -
  have "l - int k * msPerDay = l + (- int k) * msPerDay"
    by simp
  then have "(l - int k * msPerDay) div msPerDay = l div msPerDay + (- int k)"
    by (simp only: div_mult_self1 [of msPerDay l "- int k"])
  then show ?thesis
    by (simp add: dayNumber_def)
qed

lemma setDate_exists:
  assumes "localExists H (localTime H t - msPerDay)"
  shows "\<exists>t'. setDate H t (getDate H t - 1) = Some t'
           \<and> localTime H t' = localTime H t - msPerDay
           \<and> formatDate H t' = formatDate H t - 1"
proof -
  from assms obtain t' where t': "timeClip (utcTime H (localTime H t - msPerDay)) = Some t'"
      "localTime H t' = localTime H t - msPerDay"
    by (auto simp: localExists_def split: option.splits)
  have "dayNumber (localTime H t - int 1 * msPerDay) = dayNumber (localTime H t) - int 1"
    by (rule dayNumber_back)
  then have "formatDate H t' = formatDate H t - 1"
    by (simp add: formatDate_def t'(2))
  with t' show ?thesis
    by (simp add: setDate_back)
qed

















section \<open>Properties of the streak engine\<close>

text \<open>The day numbers of the sample inputs, by the calendar of the host.\<close>

lemma sample_day_numbers:
  "makeDay 2026 2 7 = 20519 \<and> makeDay 2026 2 8 = 20520 \<and> makeDay 2026 2 9 = 20521
   \<and> makeDay 2026 2 20 = 20532 \<and> makeDay 2026 2 26 = 20538 \<and> makeDay 2026 2 29 = 20541
   \<and> makeDay 2026 9 19 = 20745 \<and> makeDay 2026 9 30 = 20756
   \<and> makeDay 2026 10 1 = 20758 \<and> makeDay 2026 10 2 = 20759
   \<and> makeDay 2011 11 30 = 15338 \<and> makeDay 1994 11 31 = 9130"
  by (simp add: makeDay_def dayFromYear_def monthOffset_def inLeapYear_def Let_def)

text \<open>One round of each loop, and \<open>calculateStreak\<close> in terms of the two loops.\<close>

lemma isAllDone_key: "isAllDone h k \<Longrightarrow> k \<in> fst ` set h"
  by (auto simp: isAllDone_def split: option.splits dest!: map_of_SomeD intro: rev_image_eqI)

lemma isAllDone_Nil: "\<not> isAllDone [] k"
  by (simp add: isAllDone_def)

lemma walkBack_invalid: "walkBack H h None cur = Some cur"
  by (subst walkBack.simps) simp

lemma walkBack_stop: "\<not> isAllDone h (formatDate H t) \<Longrightarrow> walkBack H h (Some t) cur = Some cur"
  by (subst walkBack.simps) simp

lemma walkBack_step:
  "isAllDone h (formatDate H t) \<Longrightarrow>
     walkBack H h (Some t) cur = walkBack H h (setDate H t (getDate H t - 1)) (cur + 1)"
  by (subst walkBack.simps) simp

lemma specWalk_stop: "\<not> isAllDone h d \<Longrightarrow> specWalk h d cur = cur"
  by (subst specWalk.simps) simp

lemma specWalk_step: "isAllDone h d \<Longrightarrow> specWalk h d cur = specWalk h (d - 1) (cur + 1)"
  by (subst specWalk.simps) simp

lemma keys_nonempty: "h \<noteq> [] \<Longrightarrow> sort (map fst h) \<noteq> []"
  by (metis length_0_conv length_map length_sort)

lemma sort_keys_twice: "sort (sort (map fst h)) = sort (map fst (h::history))"
  by (simp add: sorted_sort_id)

lemma if_max: "(if (r::nat) > b then r else b) = max b r"
  by (simp add: max_def)

lemma bestLoop_end: "\<not> i < length ds \<Longrightarrow> bestLoop H h ds i bst run = bst"
  by (subst bestLoop.simps) simp

lemma bestLoop_open:
  "i < length ds \<Longrightarrow> \<not> isAllDone h (ds ! i) \<Longrightarrow>
     bestLoop H h ds i bst run = bestLoop H h ds (i + 1) bst 0"
  by (subst bestLoop.simps) simp

lemma bestLoop_done:
  "i < length ds \<Longrightarrow> isAllDone h (ds ! i) \<Longrightarrow>
     bestLoop H h ds i bst run
       = bestLoop H h ds (i + 1) (max bst (nextRun H h ds i run)) (nextRun H h ds i run)"
  unfolding nextRun_def by (subst bestLoop.simps) (simp only: if_True Let_def if_max)

lemma calculateStreak_Nil: "calculateStreak H [] now = Some \<lparr>current = 0, best = 0\<rparr>"
  by (simp add: calculateStreak_def)

lemma calculateStreak_Cons:
  "h \<noteq> [] \<Longrightarrow> calculateStreak H h now
     = map_option (\<lambda>cur. \<lparr>current = cur, best = max (bestLoop H h (sort (map fst h)) 0 0 0) cur\<rparr>)
         (walkBack H h (setDate H now (getDate H now - 1))
            (if isAllDone h (formatDate H now) then 1 else 0))"
  by (simp add: calculateStreak_def Let_def keys_nonempty sort_keys_twice split: option.splits)

lemma best_calculateStreak:
  assumes "calculateStreak H h now = Some r"
  shows "best r = max (bestLoop H h (sort (map fst h)) 0 0 0) (current r)"
proof (cases "h = []")
  case True
  with assms show ?thesis
    by (auto simp: calculateStreak_Nil bestLoop_end)
next
  case False
  with assms show ?thesis
    by (auto simp: calculateStreak_Cons)
qed

lemma bestLoop_le:
  "i \<le> length ds \<Longrightarrow> bst \<le> i \<Longrightarrow> run \<le> i \<Longrightarrow> bestLoop H h ds i bst run \<le> length ds"
proof (induction "length ds - i" arbitrary: i bst run)
  case 0
  then show ?case by (simp add: bestLoop_end)
next
  case (Suc m)
  then have i: "i < length ds" by simp
  show ?case
  proof (cases "isAllDone h (ds ! i)")
    case False
    have "bestLoop H h ds (i + 1) bst 0 \<le> length ds"
      using Suc.hyps(2) i Suc.prems by (intro Suc.hyps(1)) simp_all
    then show ?thesis
      by (simp only: bestLoop_open [OF i False])
  next
    case True
    have r: "nextRun H h ds i run \<le> i + 1"
      using Suc.prems(3) by (simp add: nextRun_def)
    have "bestLoop H h ds (i + 1) (max bst (nextRun H h ds i run)) (nextRun H h ds i run)
        \<le> length ds"
      using Suc.hyps(2) i Suc.prems r by (intro Suc.hyps(1)) simp_all
    then show ?thesis
      by (simp only: bestLoop_done [OF i True])
  qed
qed

lemma best_calculateStreak_le:
  assumes "calculateStreak H h now = Some r"
  shows "best r \<le> max (length h) (current r)"
proof -
  have "bestLoop H h (sort (map fst h)) 0 0 0 \<le> length (sort (map fst h))"
    by (rule bestLoop_le) simp_all
  then show ?thesis
    by (simp add: best_calculateStreak [OF assms])
qed

lemma best_ge_current:
  "calculateStreak H h now = Some r \<Longrightarrow> current r \<le> best r"
  by (simp add: best_calculateStreak)

text \<open>
  The loop against the scan of the specification. In a sorted list of distinct keys the
  entry before index \<open>i\<close> is the calendar day before exactly when that day is a key; and
  where the local midnights of two days are valid and at the same offset from UTC, they
  are one day of milliseconds apart exactly when the days are one apart.
\<close>

lemma diffIsOne_fixed:
  "parseKey H a = Some (a * msPerDay - off) \<Longrightarrow> parseKey H b = Some (b * msPerDay - off)
     \<Longrightarrow> diffIsOne H a b \<longleftrightarrow> b - a = 1"
  by (auto simp: diffIsOne_def algebra_simps)

lemma prev_key:
  assumes srt: "sorted ds" and dist: "distinct ds" and keys: "set ds = fst ` set h"
    and i: "0 < i" "i < length ds"
  shows "isAllDone h (ds ! i - 1) \<longleftrightarrow> ds ! i - ds ! (i - 1) = 1 \<and> isAllDone h (ds ! (i - 1))"
proof
  assume "ds ! i - ds ! (i - 1) = 1 \<and> isAllDone h (ds ! (i - 1))"
  then have "ds ! (i - 1) = ds ! i - 1" and "isAllDone h (ds ! (i - 1))"
    by simp_all
  then show "isAllDone h (ds ! i - 1)" by simp
next
  assume a: "isAllDone h (ds ! i - 1)"
  then have "ds ! i - 1 \<in> set ds"
    using keys by (simp add: isAllDone_key)
  then obtain m where m: "m < length ds" "ds ! m = ds ! i - 1"
    by (auto simp: in_set_conv_nth)
  have "m < i"
  proof (rule ccontr)
    assume "\<not> m < i"
    then have "i \<le> m" by simp
    then have "ds ! i \<le> ds ! m"
      using srt m(1) by (simp add: sorted_nth_mono)
    with m(2) show False by simp
  qed
  then have "m \<le> i - 1" by simp
  then have le: "ds ! m \<le> ds ! (i - 1)"
    using srt i by (simp add: sorted_nth_mono)
  have "ds ! (i - 1) \<le> ds ! i"
    using srt i by (simp add: sorted_nth_mono)
  moreover have "ds ! (i - 1) \<noteq> ds ! i"
    using dist i by (simp add: nth_eq_iff_index_eq)
  ultimately have "ds ! (i - 1) < ds ! i" by simp
  with le m(2) have eq: "ds ! (i - 1) = ds ! i - 1" by simp
  with a show "ds ! i - ds ! (i - 1) = 1 \<and> isAllDone h (ds ! (i - 1))"
    by simp
qed

lemma bestLoop_specScan:
  assumes srt: "sorted ds" and dist: "distinct ds" and keys: "set ds = fst ` set h"
    and fixed: "\<forall>d\<in>set ds. parseKey H d = Some (d * msPerDay - off)"
  shows "i \<le> length ds \<Longrightarrow> (i = 0 \<longrightarrow> run = 0) \<Longrightarrow>
     bestLoop H h ds i bst run = specScan h (i = 0) (drop i ds) run bst"
proof (induction "length ds - i" arbitrary: i bst run)
  case 0
  then show ?case by (simp add: bestLoop_end)
next
  case (Suc m)
  then have i: "i < length ds" by simp
  have drop: "drop i ds = ds ! i # drop (Suc i) ds"
    using i by (simp add: Cons_nth_drop_Suc)
  have IH: "bestLoop H h ds (i + 1) b r = specScan h False (drop (Suc i) ds) r b" for b r
    using Suc.hyps(1) [of "i + 1" r b] Suc.hyps(2) i by simp
  then have IH': "bestLoop H h ds (Suc i) b r = specScan h False (drop (Suc i) ds) r b" for b r
    by simp
  show ?case
  proof (cases "isAllDone h (ds ! i)")
    case False
    then show ?thesis
      by (simp add: bestLoop_open [OF i False] IH' drop)
  next
    case True
    have next_eq: "nextRun H h ds i run = (if i = 0 \<or> isAllDone h (ds ! i - 1) then run + 1 else 1)"
    proof (cases "i = 0")
      case True
      with Suc.prems(2) show ?thesis by (simp add: nextRun_def)
    next
      case False
      then have pos: "0 < i" by simp
      have "parseKey H (ds ! (i - 1)) = Some (ds ! (i - 1) * msPerDay - off)"
        and "parseKey H (ds ! i) = Some (ds ! i * msPerDay - off)"
        using fixed i by simp_all
      then have "diffIsOne H (ds ! (i - 1)) (ds ! i) \<longleftrightarrow> ds ! i - ds ! (i - 1) = 1"
        by (rule diffIsOne_fixed)
      then have "diffIsOne H (ds ! (i - 1)) (ds ! i) \<and> isAllDone h (ds ! (i - 1))
          \<longleftrightarrow> isAllDone h (ds ! i - 1)"
        using prev_key [OF srt dist keys pos i] by simp
      with False show ?thesis by (simp add: nextRun_def)
    qed
    show ?thesis
      by (simp only: bestLoop_done [OF i True] IH drop specScan.simps True if_True Let_def next_eq)
  qed
qed

lemma scan_fixed_offset:
  assumes "distinct (map fst h)" "\<forall>d\<in>fst ` set h. parseKey H d = Some (d * msPerDay - off)"
  shows "bestLoop H h (sort (map fst h)) 0 0 0 = specScan h True (sort (map fst h)) 0 0"
proof -
  have "bestLoop H h (sort (map fst h)) 0 0 0
      = specScan h (0 = (0::nat)) (drop 0 (sort (map fst h))) 0 0"
    using assms by (intro bestLoop_specScan [where off = off]) simp_all
  then show ?thesis by simp
qed

text \<open>
  Where the local midnights of all recorded days are valid and at the same offset from
  UTC, the best streak of a call that returns is the best streak of the specification.
\<close>

lemma best_fixed_offset:
  assumes "distinct (map fst h)" "\<forall>d\<in>fst ` set h. parseKey H d = Some (d * msPerDay - off)"
    and "calculateStreak H h now = Some r"
  shows "best r = specBest h (current r)"
  by (simp add: best_calculateStreak [OF assms(3)] scan_fixed_offset [OF assms(1,2)] specBest_def)

text \<open>The walk of the specification counts the run of all-done days that ends at its start.\<close>

lemma specWalk_run:
  "\<exists>n. specWalk h d c = c + n \<and> (\<forall>k<n. isAllDone h (d - int k)) \<and> \<not> isAllDone h (d - int n)"
proof (induction h d c rule: specWalk.induct)
  case (1 h d cur)
  show ?case
  proof (cases "isAllDone h d")
    case True
    from 1 [OF True] obtain n where n: "specWalk h (d - 1) (cur + 1) = cur + 1 + n"
        "\<forall>k<n. isAllDone h (d - 1 - int k)" "\<not> isAllDone h (d - 1 - int n)"
      by blast
    have a: "specWalk h d cur = cur + Suc n"
      using n(1) by (simp add: specWalk_step [OF True])
    have b: "\<forall>k<Suc n. isAllDone h (d - int k)"
    proof (intro allI impI)
      fix k assume "k < Suc n"
      show "isAllDone h (d - int k)"
      proof (cases k)
        case 0
        with True show ?thesis by simp
      next
        case (Suc j)
        with \<open>k < Suc n\<close> have "j < n" by simp
        with n(2) have "isAllDone h (d - 1 - int j)" by blast
        moreover have "d - 1 - int j = d - int k" using Suc by simp
        ultimately show ?thesis by simp
      qed
    qed
    have c: "\<not> isAllDone h (d - int (Suc n))"
    proof -
      have "d - 1 - int n = d - int (Suc n)" by simp
      with n(3) show ?thesis by simp
    qed
    from a b c show ?thesis by blast
  next
    case False
    then have "specWalk h d cur = cur + 0"
      by (simp add: specWalk_stop)
    with False show ?thesis
      by (intro exI [of _ 0]) simp
  qed
qed

lemma run_Least:
  assumes "\<forall>k<n. P k" "\<not> P n"
  shows "(LEAST m. \<not> P m) = (n::nat)"
proof (rule Least_equality)
  show "\<not> P n" by (rule assms(2))
next
  fix y assume "\<not> P y"
  with assms(1) show "n \<le> y"
    by (meson not_le)
qed

lemma specCurrent_specWalk:
  "specCurrent h today = specWalk h (today - 1) (if isAllDone h today then 1 else 0)"
proof -
  obtain n where n: "specWalk h (today - 1) (if isAllDone h today then 1 else 0)
        = (if isAllDone h today then 1 else 0) + n"
      "\<forall>k<n. isAllDone h (today - 1 - int k)" "\<not> isAllDone h (today - 1 - int n)"
    using specWalk_run by blast
  show ?thesis
    using run_Least [of n "\<lambda>k. isAllDone h (today - 1 - int k)", OF n(2,3)]
    by (simp add: specCurrent_def n(1))
qed

lemma specWalk_add: "specWalk h d cur = cur + specWalk h d 0"
proof -
  obtain n where n: "specWalk h d cur = cur + n"
      "\<forall>k<n. isAllDone h (d - int k)" "\<not> isAllDone h (d - int n)"
    using specWalk_run by blast
  obtain m where m: "specWalk h d 0 = 0 + m"
      "\<forall>k<m. isAllDone h (d - int k)" "\<not> isAllDone h (d - int m)"
    using specWalk_run by blast
  have "n = m"
    using n(2,3) m(2,3) by (meson linorder_neqE_nat)
  with n(1) m(1) show ?thesis by simp
qed

lemma specWalk_card:
  "specWalk h d cur \<le> cur + card {k \<in> fst ` set h. k \<le> d}"
proof (induction h d cur rule: specWalk.induct)
  case (1 h d cur)
  show ?case
  proof (cases "isAllDone h d")
    case True
    then have mem: "d \<in> fst ` set h"
      by (rule isAllDone_key)
    have "{k \<in> fst ` set h. k \<le> d - 1} \<subset> {k \<in> fst ` set h. k \<le> d}"
      using mem by auto
    then have "card {k \<in> fst ` set h. k \<le> d - 1} < card {k \<in> fst ` set h. k \<le> d}"
      by (intro psubset_card_mono) simp_all
    with 1 [OF True] show ?thesis
      by (simp add: specWalk_step [OF True])
  next
    case False
    then show ?thesis by (simp add: specWalk_stop)
  qed
qed

lemma specWalk_le: "specWalk h d 0 \<le> length h"
proof -
  have "card {k \<in> fst ` set h. k \<le> d} \<le> card (fst ` set h)"
    by (intro card_mono) auto
  also have "\<dots> \<le> card (set h)"
    by (intro card_image_le) simp
  also have "\<dots> \<le> length h"
    by (rule card_length)
  finally show ?thesis
    using specWalk_card [of h d 0] by simp
qed

text \<open>
  The walk of the code on a host that shows the local time of the cursor on every day
  the walk comes to: it ends, with the count of the walk of the specification.
\<close>

lemma walkBack_specWalk:
  assumes reg: "\<forall>k\<in>{1..n}. localExists H (l - int k * msPerDay)"
  shows "localTime H t = l - int j * msPerDay \<Longrightarrow> d = dayNumber l - int j
     \<Longrightarrow> j + specWalk h d 0 \<le> n
     \<Longrightarrow> walkBack H h (Some t) cur = Some (specWalk h d cur)"
proof (induction h d cur arbitrary: j t rule: specWalk.induct)
  case (1 h d cur)
  have key: "formatDate H t = d"
    using "1.prems"(1,2) by (simp add: formatDate_def dayNumber_back)
  show ?case
  proof (cases "isAllDone h d")
    case False
    then show ?thesis
      by (simp add: walkBack_stop key specWalk_stop)
  next
    case True
    have s: "specWalk h d 0 = 1 + specWalk h (d - 1) 0"
      using specWalk_step [OF True, of 0] specWalk_add [of h "d - 1" 1] by simp
    with "1.prems"(3) have b: "Suc j + specWalk h (d - 1) 0 \<le> n"
      by simp
    then have "Suc j \<in> {1..n}"
      by simp
    with reg have "localExists H (l - int (Suc j) * msPerDay)"
      by blast
    moreover have e: "localTime H t - msPerDay = l - int (Suc j) * msPerDay"
      unfolding "1.prems"(1) by (simp add: algebra_simps)
    ultimately have "localExists H (localTime H t - msPerDay)"
      by (simp only:)
    from setDate_exists [OF this] obtain t' where t': "setDate H t (getDate H t - 1) = Some t'"
        "localTime H t' = localTime H t - msPerDay"
      by blast
    have lt: "localTime H t' = l - int (Suc j) * msPerDay"
      using t'(2) unfolding e .
    have d': "d - 1 = dayNumber l - int (Suc j)"
      using "1.prems"(2) by simp
    have "walkBack H h (Some t') (cur + 1) = Some (specWalk h (d - 1) (cur + 1))"
      using True lt d' b by (rule "1.IH")
    then show ?thesis
      using True by (simp add: walkBack_step key t'(1) specWalk_step)
  qed
qed

lemma walk_regular:
  assumes reg: "\<forall>k\<in>{1..n}. localExists H (localTime H now - int k * msPerDay)"
    and bound: "1 + specWalk h (formatDate H now - 1) 0 \<le> n"
  shows "walkBack H h (setDate H now (getDate H now - 1)) cur
     = Some (specWalk h (formatDate H now - 1) cur)"
proof -
  have "1 \<in> {1..n}"
    using bound by simp
  with reg have "localExists H (localTime H now - int 1 * msPerDay)"
    by blast
  then have "localExists H (localTime H now - msPerDay)"
    by simp
  from setDate_exists [OF this] obtain t' where t': "setDate H now (getDate H now - 1) = Some t'"
      "localTime H t' = localTime H now - msPerDay"
    by blast
  have "walkBack H h (Some t') cur = Some (specWalk h (formatDate H now - 1) cur)"
    using reg
  proof (rule walkBack_specWalk)
    show "localTime H t' = localTime H now - int 1 * msPerDay"
      using t'(2) by simp
    show "formatDate H now - 1 = dayNumber (localTime H now) - int 1"
      by (simp add: formatDate_def)
    show "1 + specWalk h (formatDate H now - 1) 0 \<le> n"
      by (rule bound)
  qed
  with t'(1) show ?thesis by simp
qed

text \<open>
  On a host that shows the local time of the call on each of the days before it, as many
  of them as the history has entries and one more, \<open>calculateStreak\<close> returns, and its
  current streak is the count of the specification's procedure.
\<close>

lemma calculateStreak_regular:
  assumes reg: "\<forall>k\<in>{1..length h + 1}. localExists H (localTime H now - int k * msPerDay)"
  shows "\<exists>r. calculateStreak H h now = Some r
           \<and> current r = specCurrent h (formatDate H now)
           \<and> best r = max (bestLoop H h (sort (map fst h)) 0 0 0) (current r)"
proof (cases "h = []")
  case True
  have "specWalk [] (formatDate H now - 1) 0 = 0"
    by (simp add: specWalk_stop isAllDone_Nil)
  with True show ?thesis
    by (simp add: calculateStreak_Nil specCurrent_specWalk isAllDone_Nil bestLoop_end)
next
  case False
  have "1 + specWalk h (formatDate H now - 1) 0 \<le> length h + 1"
    using specWalk_le [of h "formatDate H now - 1"] by simp
  with reg have "walkBack H h (setDate H now (getDate H now - 1))
        (if isAllDone h (formatDate H now) then 1 else 0)
      = Some (specWalk h (formatDate H now - 1) (if isAllDone h (formatDate H now) then 1 else 0))"
    by (rule walk_regular)
  then show ?thesis
    by (simp add: calculateStreak_Cons [OF False] specCurrent_specWalk)
qed

text \<open>
  On such a host, a history in which today and the three days before it are all done
  and the fourth day before today has no entry gives the current streak 4 and a best
  streak of at least 4; when these four days are the whole history, the best streak is 4.
\<close>

lemma calculateStreak_four_days:
  assumes reg: "\<forall>k\<in>{1..length h + 1}. localExists H (localTime H now - int k * msPerDay)"
    and now: "formatDate H now = today"
    and every: "\<forall>d\<in>{today - 3..today}. isAllDone h d"
    and gap: "map_of h (today - 4) = None"
  shows "\<exists>r. calculateStreak H h now = Some r \<and> current r = 4 \<and> 4 \<le> best r
           \<and> (distinct (map fst h) \<and> fst ` set h = {today - 3..today} \<longrightarrow> best r = 4)"
proof -
  from calculateStreak_regular [OF reg] obtain r where r: "calculateStreak H h now = Some r"
      "current r = specCurrent h (formatDate H now)"
    by blast
  have d: "isAllDone h today" "isAllDone h (today - 1)" "isAllDone h (today - 2)"
      "isAllDone h (today - 3)"
    using every by simp_all
  have n: "\<not> isAllDone h (today - 4)"
    using gap by (simp add: isAllDone_def)
  have w: "specWalk h (today - 1) c = c + 3" for c
  proof -
    have "specWalk h (today - 1) c = specWalk h (today - 2) (c + 1)"
      using specWalk_step [OF d(2), of c] by simp
    also have "\<dots> = specWalk h (today - 3) (c + 2)"
      using specWalk_step [OF d(3), of "c + 1"] by simp
    also have "\<dots> = specWalk h (today - 4) (c + 3)"
      using specWalk_step [OF d(4), of "c + 2"] by (simp add: numeral_3_eq_3)
    also have "\<dots> = c + 3"
      using n by (rule specWalk_stop)
    finally show ?thesis .
  qed
  have c: "current r = 4"
    using d(1) by (simp add: r(2) now specCurrent_specWalk w)
  have b: "4 \<le> best r"
    using best_ge_current [OF r(1)] c by simp
  have "best r = 4" if dist: "distinct (map fst h)" and keys: "fst ` set h = {today - 3..today}"
  proof -
    have "card (set (map fst h)) = length (map fst h)"
      using dist by (rule distinct_card)
    moreover have "card (set (map fst h)) = card {today - 3..today}"
      using keys by simp
    ultimately have "length h = 4" by simp
    then have "best r \<le> 4"
      using best_calculateStreak_le [OF r(1)] c by simp
    with b show ?thesis by simp
  qed
  with r(1) c b show ?thesis by blast
qed

text \<open>
  On a host whose clock skips a whole day, the walk may not end. In Apia the day
  2011-12-30 was skipped; at noon of 2011-12-31, \<open>d.setDate(d.getDate() - 1)\<close> asks for noon
  of 2011-12-30 and the host answers with the moment it started from. With 2011-12-31 all
  done, every round finds the same day, and \<open>calculateStreak\<close> does not return.
\<close>

lemma setDate_apia:
  "formatDate apia noonDec31Apia = 15339
   \<and> setDate apia noonDec31Apia (getDate apia noonDec31Apia - 1) = Some noonDec31Apia"
  by (simp add: setDate_back formatDate_def dayNumber_def localTime_def utcTime_def timeClip_def
      apia_def noonDec31Apia_def)

lemma walkBack_apia: "walkBack apia oneDay (Some noonDec31Apia) cur = None"
proof -
  have "\<not> (H = apia \<and> h = oneDay \<and> d = Some noonDec31Apia)"
    if "walkBack H h d cur = Some y" for H h d cur y
  proof (rule walkBack.raw_induct
      [where P = "\<lambda>H h d cur y. \<not> (H = apia \<and> h = oneDay \<and> d = Some noonDec31Apia)", OF _ that])
    fix walk :: "host \<Rightarrow> history \<Rightarrow> int option \<Rightarrow> nat \<Rightarrow> nat option"
    fix H h d cur y
    assume IH: "\<And>H h d cur y. walk H h d cur = Some y
        \<Longrightarrow> \<not> (H = apia \<and> h = oneDay \<and> d = Some noonDec31Apia)"
    assume body: "(case d of
          None \<Rightarrow> Some cur
        | Some t \<Rightarrow>
            if isAllDone h (formatDate H t)
            then walk H h (setDate H t (getDate H t - 1)) (cur + 1)
            else Some cur) = Some y"
    show "\<not> (H = apia \<and> h = oneDay \<and> d = Some noonDec31Apia)"
    proof
      assume a: "H = apia \<and> h = oneDay \<and> d = Some noonDec31Apia"
      have "isAllDone oneDay (formatDate apia noonDec31Apia)"
        by (simp add: setDate_apia isAllDone_def oneDay_def doneEntry_def)
      with body a have "walk apia oneDay (Some noonDec31Apia) (cur + 1) = Some y"
        by (simp add: setDate_apia)
      with IH show False
        by blast
    qed
  qed
  then have no: "walkBack apia oneDay (Some noonDec31Apia) cur \<noteq> Some y" for y
    by blast
  show ?thesis
  proof (cases "walkBack apia oneDay (Some noonDec31Apia) cur")
    case None
    then show ?thesis .
  next
    case (Some y)
    with no show ?thesis by blast
  qed
qed

lemma calculateStreak_skipped_day: "calculateStreak apia oneDay noonDec31Apia = None"
proof -
  have "oneDay \<noteq> []"
    by (simp add: oneDay_def)
  then show ?thesis
    by (simp add: calculateStreak_Cons setDate_apia walkBack_apia)
qed

text \<open>
  C1. The claim asks for the current streak to be the count of the procedure that goes
  back by calendar days: one for today when today's entry is all done, then one for each
  day of the unbroken run of all-done days that ends yesterday. \<open>calculateStreak\<close> moves a
  \<open>Date\<close> that keeps the time of day of the call, and \<open>d.setDate(d.getDate() - 1)\<close> comes to
  the day before only where the host's clock shows that time of day on the day before
  (\<open>calculateStreak_regular\<close> and \<open>calculateStreak_four_days\<close> above: there the call
  returns, the current streak is the count of the claim, and the four days of the claim
  give current 4 and best 4). In Nuuk the hour before the midnight that ends Saturday 2026-03-28
  is skipped. At 23:30 of Sunday 2026-03-29, with that Sunday and the three days before
  it all done and nothing else recorded, the first step back comes to 00:30 of the same
  Sunday; today is counted a second time, and \<open>calculateStreak\<close> returns current 5 and
  best 5, where the procedure of the claim counts 4 (as the code does at the same time of
  day in UTC, with current 4 and best 4).
\<close>

theorem calculateStreak_skipped_hour:
  "formatDate nuuk lateMar29Nuuk = 20541
   \<and> map_option (formatDate nuuk) (setDate nuuk lateMar29Nuuk (getDate nuuk lateMar29Nuuk - 1))
       = Some 20541
   \<and> calculateStreak nuuk fourDaysMarch lateMar29Nuuk = Some \<lparr>current = 5, best = 5\<rparr>
   \<and> specCurrent fourDaysMarch 20541 = 4
   \<and> calculateStreak utc fourDaysMarch (20541 * msPerDay + 84600000)
       = Some \<lparr>current = 4, best = 4\<rparr>"
proof (intro conjI)
  show "formatDate nuuk lateMar29Nuuk = 20541"
    by code_simp
  show "map_option (formatDate nuuk) (setDate nuuk lateMar29Nuuk (getDate nuuk lateMar29Nuuk - 1))
       = Some 20541"
    by code_simp
  show "calculateStreak nuuk fourDaysMarch lateMar29Nuuk = Some \<lparr>current = 5, best = 5\<rparr>"
    by code_simp
  have "specWalk fourDaysMarch (20541 - 1) (if isAllDone fourDaysMarch 20541 then 1 else 0) = 4"
    by code_simp
  then show "specCurrent fourDaysMarch 20541 = 4"
    by (simp only: specCurrent_specWalk)
  show "calculateStreak utc fourDaysMarch (20541 * msPerDay + 84600000)
       = Some \<lparr>current = 4, best = 4\<rparr>"
    by code_simp
qed

text \<open>
  C2. The claim asks for the best streak to be the larger of the current streak and the
  longest run of the scan that extends a run exactly when the calendar day before is in
  the history and all done. The loop tests calendar adjacency by the difference of the
  local midnights in milliseconds, which is one day only where the offset from UTC is
  the same on both days (\<open>best_fixed_offset\<close> above: there the loop is the scan). In New
  York, with 2026-03-07, 2026-03-08 and 2026-03-09 all done and today 2026-03-20 open,
  the midnights of 8 and 9 March are 23 hours apart, the run restarts on 9 March, and
  \<open>calculateStreak\<close> returns best 2 where the scan of the claim gives 3 (as the code does
  in UTC).
\<close>

theorem calculateStreak_offset_change:
  "calculateStreak newYork marchDays noonMar20NewYork = Some \<lparr>current = 0, best = 2\<rparr>
   \<and> formatDate newYork noonMar20NewYork = 20532
   \<and> specBest marchDays 0 = 3
   \<and> calculateStreak utc marchDays (20532 * msPerDay + 43200000)
       = Some \<lparr>current = 0, best = 3\<rparr>"
  by code_simp








section \<open>Properties of the daily history\<close>

lemma snapshotToday_history:
  "dailyHistory (snapshotToday today tasks s) = AList.update today (snapshotOf tasks) (storedHistory s)"
  by (simp add: snapshotToday_def Let_def)

lemma storedHistory_snapshotToday:
  "storedHistory (snapshotToday today tasks s) = dailyHistory (snapshotToday today tasks s)"
  by (simp add: snapshotToday_def storedHistory_def Let_def)

lemma allDone_snapshotOf:
  "allDone (snapshotOf tasks) \<longleftrightarrow> tasks \<noteq> [] \<and> (\<forall>t\<in>set tasks. task_done t)"
  by (simp add: snapshotOf_def list_all_iff)

lemma entry_tasks_snapshotOf:
  "entry_tasks (snapshotOf tasks)
     = map (\<lambda>t. \<lparr>snap_text = task_text t, snap_done = task_done t\<rparr>) tasks"
  by (simp add: snapshotOf_def simplified_def)

lemma map_of_snapshotToday:
  "map_of (dailyHistory (snapshotToday today tasks s)) today = Some (snapshotOf tasks)"
  by (simp add: snapshotToday_history update_conv')

text \<open>
  C4. The entry that \<open>snapshotToday\<close> stores under today's date copies the text and the
  state of every task, and its \<open>allDone\<close> is true if and only if the task list is not
  empty and every task in it is done; the same holds of the entry's own task sequence.
  The snapshot of an empty list is not all done.
\<close>

theorem snapshotToday_allDone:
  "\<exists>e. map_of (dailyHistory (snapshotToday today tasks s)) today = Some e
     \<and> stored_dailyHistory (snapshotToday today tasks s)
         = Some (dailyHistory (snapshotToday today tasks s))
     \<and> entry_tasks e = map (\<lambda>t. \<lparr>snap_text = task_text t, snap_done = task_done t\<rparr>) tasks
     \<and> (allDone e \<longleftrightarrow> tasks \<noteq> [] \<and> (\<forall>t\<in>set tasks. task_done t))
     \<and> (allDone e \<longleftrightarrow> entry_tasks e \<noteq> [] \<and> (\<forall>x\<in>set (entry_tasks e). snap_done x))
     \<and> (tasks = [] \<longrightarrow> \<not> allDone e)"
proof (intro exI conjI)
  show "map_of (dailyHistory (snapshotToday today tasks s)) today = Some (snapshotOf tasks)"
    by (rule map_of_snapshotToday)
  show "stored_dailyHistory (snapshotToday today tasks s)
         = Some (dailyHistory (snapshotToday today tasks s))"
    by (simp add: snapshotToday_def Let_def)
  show "entry_tasks (snapshotOf tasks)
      = map (\<lambda>t. \<lparr>snap_text = task_text t, snap_done = task_done t\<rparr>) tasks"
    by (rule entry_tasks_snapshotOf)
  show "allDone (snapshotOf tasks) \<longleftrightarrow> tasks \<noteq> [] \<and> (\<forall>t\<in>set tasks. task_done t)"
    by (rule allDone_snapshotOf)
  show "allDone (snapshotOf tasks)
      \<longleftrightarrow> entry_tasks (snapshotOf tasks) \<noteq> []
          \<and> (\<forall>x\<in>set (entry_tasks (snapshotOf tasks)). snap_done x)"
    by (simp add: allDone_snapshotOf entry_tasks_snapshotOf)
  show "tasks = [] \<longrightarrow> \<not> allDone (snapshotOf tasks)"
    by (simp add: allDone_snapshotOf)
qed

text \<open>
  Instances: two done tasks give an all-done entry; one task that is not done, or no
  task at all, gives an entry that is not all done.
\<close>

theorem snapshotToday_allDone_witness:
  "(\<exists>e. map_of (dailyHistory (snapshotToday 20759 [taskA, taskC] freshState)) 20759 = Some e
        \<and> allDone e \<and> length (entry_tasks e) = 2)
   \<and> (\<exists>e. map_of (dailyHistory (snapshotToday 20759 [taskA, taskB] freshState)) 20759 = Some e
        \<and> \<not> allDone e)
   \<and> (\<exists>e. map_of (dailyHistory (snapshotToday 20759 [] freshState)) 20759 = Some e
        \<and> \<not> allDone e \<and> entry_tasks e = [])"
proof (intro conjI)
  show "\<exists>e. map_of (dailyHistory (snapshotToday 20759 [taskA, taskC] freshState)) 20759 = Some e
        \<and> allDone e \<and> length (entry_tasks e) = 2"
    using snapshotToday_allDone [of 20759 "[taskA, taskC]" freshState]
    by (auto simp: taskA_def taskC_def)
  show "\<exists>e. map_of (dailyHistory (snapshotToday 20759 [taskA, taskB] freshState)) 20759 = Some e
        \<and> \<not> allDone e"
    using snapshotToday_allDone [of 20759 "[taskA, taskB]" freshState]
    by (auto simp: taskA_def taskB_def)
  show "\<exists>e. map_of (dailyHistory (snapshotToday 20759 [] freshState)) 20759 = Some e
        \<and> \<not> allDone e \<and> entry_tasks e = []"
    using snapshotToday_allDone [of 20759 "[]" freshState]
    by auto
qed

lemma filter_key_update:
  "distinct (map fst al) \<Longrightarrow> length (filter (\<lambda>p. fst p = k) (AList.update k v al)) = 1"
proof (induction al)
  case Nil
  then show ?case by simp
next
  case (Cons p ps)
  show ?case
  proof (cases "fst p = k")
    case True
    with Cons.prems have "k \<notin> fst ` set ps" by auto
    then have "filter (\<lambda>q. fst q = k) ps = []"
      by (auto simp: filter_empty_conv)
    with True show ?thesis by simp
  next
    case False
    with Cons show ?thesis by simp
  qed
qed

lemma snapshotToday_twice:
  "snapshotToday d t2 (snapshotToday d t1 s) = snapshotToday d t2 s"
  by (simp add: snapshotToday_def storedHistory_def Let_def)

lemma distinct_snapshotToday:
  "distinct (map fst (storedHistory s))
     \<Longrightarrow> distinct (map fst (dailyHistory (snapshotToday d t s)))"
  by (simp add: snapshotToday_history distinct_update)

lemma map_of_snapshotToday_other:
  "d' \<noteq> today \<Longrightarrow>
     map_of (dailyHistory (snapshotToday today tasks s)) d' = map_of (storedHistory s) d'"
  by (simp add: snapshotToday_history update_conv')

lemma keys_snapshotToday:
  "map fst (dailyHistory (snapshotToday today tasks s))
     = (if today \<in> fst ` set (storedHistory s) then map fst (storedHistory s)
        else map fst (storedHistory s) @ [today])"
  by (simp add: snapshotToday_history update_keys)

text \<open>
  C5. Two calls of \<open>snapshotToday\<close> on the same date \<open>d\<close>, with the task lists \<open>t1\<close> and then
  \<open>t2\<close>: the history has exactly one entry for the date; the entry holds the text and the
  state of every task of \<open>t2\<close>, in order, and its \<open>allDone\<close> is that of \<open>t2\<close>; every other
  date has the entry it had in the stored history before the calls (or none, as before);
  the dates are those of the stored history, in their order, with \<open>d\<close> added at the end
  if it was not among them, which are also the dates after the first call; and the state
  is the one the second call alone would have produced. A second call with the same
  tasks changes nothing.
\<close>

theorem snapshotToday_overwrites:
  assumes "distinct (map fst (storedHistory s))"
  shows "length (filter (\<lambda>p. fst p = d)
                  (dailyHistory (snapshotToday d t2 (snapshotToday d t1 s)))) = 1
    \<and> map_of (dailyHistory (snapshotToday d t2 (snapshotToday d t1 s))) d = Some (snapshotOf t2)
    \<and> (\<exists>e. map_of (dailyHistory (snapshotToday d t2 (snapshotToday d t1 s))) d = Some e
           \<and> entry_tasks e = map (\<lambda>t. \<lparr>snap_text = task_text t, snap_done = task_done t\<rparr>) t2
           \<and> (allDone e \<longleftrightarrow> t2 \<noteq> [] \<and> (\<forall>t\<in>set t2. task_done t)))
    \<and> (\<forall>d'. d' \<noteq> d \<longrightarrow>
           map_of (dailyHistory (snapshotToday d t2 (snapshotToday d t1 s))) d'
             = map_of (storedHistory s) d')
    \<and> map fst (dailyHistory (snapshotToday d t2 (snapshotToday d t1 s)))
        = (if d \<in> fst ` set (storedHistory s) then map fst (storedHistory s)
           else map fst (storedHistory s) @ [d])
    \<and> map fst (dailyHistory (snapshotToday d t2 (snapshotToday d t1 s)))
        = map fst (dailyHistory (snapshotToday d t1 s))
    \<and> length (dailyHistory (snapshotToday d t2 (snapshotToday d t1 s)))
        = length (dailyHistory (snapshotToday d t1 s))
    \<and> stored_dailyHistory (snapshotToday d t2 (snapshotToday d t1 s))
        = Some (dailyHistory (snapshotToday d t2 (snapshotToday d t1 s)))
    \<and> snapshotToday d t2 (snapshotToday d t1 s) = snapshotToday d t2 s
    \<and> snapshotToday d t1 (snapshotToday d t1 s) = snapshotToday d t1 s"
proof (intro conjI)
  show "length (filter (\<lambda>p. fst p = d)
                  (dailyHistory (snapshotToday d t2 (snapshotToday d t1 s)))) = 1"
    using assms by (simp add: snapshotToday_twice snapshotToday_history filter_key_update)
  show m: "map_of (dailyHistory (snapshotToday d t2 (snapshotToday d t1 s))) d
      = Some (snapshotOf t2)"
    by (rule map_of_snapshotToday)
  show "\<exists>e. map_of (dailyHistory (snapshotToday d t2 (snapshotToday d t1 s))) d = Some e
           \<and> entry_tasks e = map (\<lambda>t. \<lparr>snap_text = task_text t, snap_done = task_done t\<rparr>) t2
           \<and> (allDone e \<longleftrightarrow> t2 \<noteq> [] \<and> (\<forall>t\<in>set t2. task_done t))"
    using m entry_tasks_snapshotOf [of t2] allDone_snapshotOf [of t2] by blast
  show "\<forall>d'. d' \<noteq> d \<longrightarrow>
           map_of (dailyHistory (snapshotToday d t2 (snapshotToday d t1 s))) d'
             = map_of (storedHistory s) d'"
    by (simp add: snapshotToday_twice map_of_snapshotToday_other)
  show "map fst (dailyHistory (snapshotToday d t2 (snapshotToday d t1 s)))
        = (if d \<in> fst ` set (storedHistory s) then map fst (storedHistory s)
           else map fst (storedHistory s) @ [d])"
    by (simp only: snapshotToday_twice keys_snapshotToday)
  show keys: "map fst (dailyHistory (snapshotToday d t2 (snapshotToday d t1 s)))
        = map fst (dailyHistory (snapshotToday d t1 s))"
    by (simp add: snapshotToday_history storedHistory_snapshotToday update_keys dom_update)
  show "length (dailyHistory (snapshotToday d t2 (snapshotToday d t1 s)))
        = length (dailyHistory (snapshotToday d t1 s))"
    using keys by (metis length_map)
  show "stored_dailyHistory (snapshotToday d t2 (snapshotToday d t1 s))
        = Some (dailyHistory (snapshotToday d t2 (snapshotToday d t1 s)))"
    by (simp add: snapshotToday_def Let_def)
  show "snapshotToday d t2 (snapshotToday d t1 s) = snapshotToday d t2 s"
    by (rule snapshotToday_twice)
  show "snapshotToday d t1 (snapshotToday d t1 s) = snapshotToday d t1 s"
    by (rule snapshotToday_twice)
qed

text \<open>
  Instance: on 2026-11-02 (day 20759), after a first day in the history, a snapshot of
  one open task and then of two done tasks leaves two entries: the entry of the first
  day as it was, and for 2026-11-02 the two done tasks, all done.
\<close>

theorem snapshotToday_overwrites_witness:
  "distinct (map fst (storedHistory secondDayState))
   \<and> dailyHistory (snapshotToday 20759 [taskA, taskC] (snapshotToday 20759 [taskB] secondDayState))
       = [(20758, \<lparr>entry_tasks = [\<lparr>snap_text = ascii ''write report'', snap_done = True\<rparr>],
                   allDone = True\<rparr>),
          (20759, \<lparr>entry_tasks = [\<lparr>snap_text = ascii ''write report'', snap_done = True\<rparr>,
                                   \<lparr>snap_text = ascii ''water plants'', snap_done = True\<rparr>],
                   allDone = True\<rparr>)]
   \<and> map_of (dailyHistory (snapshotToday 20759 [taskA, taskC]
               (snapshotToday 20759 [taskB] secondDayState))) 20758
       = map_of (storedHistory secondDayState) 20758
   \<and> map_of (storedHistory secondDayState) 20758
       = Some \<lparr>entry_tasks = [\<lparr>snap_text = ascii ''write report'', snap_done = True\<rparr>],
                allDone = True\<rparr>
   \<and> dailyHistory (snapshotToday 20759 [taskB] secondDayState)
       = [(20758, \<lparr>entry_tasks = [\<lparr>snap_text = ascii ''write report'', snap_done = True\<rparr>],
                   allDone = True\<rparr>),
          (20759, \<lparr>entry_tasks = [\<lparr>snap_text = ascii ''call bank'', snap_done = False\<rparr>],
                   allDone = False\<rparr>)]
   \<and> length (filter (\<lambda>p. fst p = 20759)
        (dailyHistory (snapshotToday 20759 [taskA, taskC]
           (snapshotToday 20759 [taskB] secondDayState)))) = 1"
  using snapshotToday_overwrites [of secondDayState 20759 "[taskA, taskC]" "[taskB]"]
  by (simp add: secondDayState_def freshState_def storedHistory_def snapshotToday_def Let_def
      snapshotOf_def simplified_def taskA_def taskB_def taskC_def)

section \<open>Properties of the task store\<close>

lemma loadTasks_three: "loadTasks threeTasksState = [taskA, taskB, taskC]"
  by (simp add: threeTasksState_def freshState_def loadTasks_def)

lemma loadTasks_saveTasks: "loadTasks (saveTasks today ts s) = ts"
  by (simp add: loadTasks_def saveTasks_def snapshotToday_def updateBadge_def Let_def)

lemma toggleFound_twice: "toggleFound i (toggleFound i ts) = ts"
  by (induction ts) auto

lemma toggleFound_update:
  "i \<in> task_id ` set ts \<Longrightarrow>
     \<exists>k<length ts. task_id (ts ! k) = i \<and> (\<forall>j<k. task_id (ts ! j) \<noteq> i)
        \<and> toggleFound i ts = ts[k := (ts ! k)\<lparr>task_done := \<not> task_done (ts ! k)\<rparr>]"
proof (induction ts)
  case Nil
  then show ?case by simp
next
  case (Cons t ts)
  show ?case
  proof (cases "task_id t = i")
    case True
    then have "task_id ((t # ts) ! 0) = i \<and> (\<forall>j<0::nat. task_id ((t # ts) ! j) \<noteq> i)
        \<and> toggleFound i (t # ts) = (t # ts)[0 := ((t # ts) ! 0)\<lparr>task_done := \<not> task_done ((t # ts) ! 0)\<rparr>]"
      by simp
    then show ?thesis by (intro exI [of _ 0]) simp
  next
    case False
    with Cons.prems have "i \<in> task_id ` set ts" by auto
    from Cons.IH [OF this] obtain k where k: "k < length ts" "task_id (ts ! k) = i"
      "\<forall>j<k. task_id (ts ! j) \<noteq> i"
      "toggleFound i ts = ts[k := (ts ! k)\<lparr>task_done := \<not> task_done (ts ! k)\<rparr>]"
      by blast
    have "\<forall>j<Suc k. task_id ((t # ts) ! j) \<noteq> i"
      using False k(3) by (auto simp: less_Suc_eq_0_disj)
    with k False show ?thesis
      by (intro exI [of _ "Suc k"]) simp
  qed
qed

text \<open>
  C9. For an identifier that occurs in the task list, \<open>toggleTask\<close> applied twice gives
  the task list back. One application is the list with one element replaced, the first
  task \<open>k\<close> with the identifier, and that element differs from the old one in \<open>done\<close>
  alone.
\<close>

theorem toggleTask_involution:
  assumes "i \<in> task_id ` set (loadTasks s)"
  shows "loadTasks (toggleTask today' i (toggleTask today i s)) = loadTasks s
    \<and> (\<exists>k<length (loadTasks s).
          task_id (loadTasks s ! k) = i
        \<and> (\<forall>j<k. task_id (loadTasks s ! j) \<noteq> i)
        \<and> loadTasks (toggleTask today i s)
            = (loadTasks s)[k := (loadTasks s ! k)\<lparr>task_done := \<not> task_done (loadTasks s ! k)\<rparr>])"
proof
  show "loadTasks (toggleTask today' i (toggleTask today i s)) = loadTasks s"
    by (simp add: toggleTask_def loadTasks_saveTasks toggleFound_twice)
  show "\<exists>k<length (loadTasks s).
          task_id (loadTasks s ! k) = i
        \<and> (\<forall>j<k. task_id (loadTasks s ! j) \<noteq> i)
        \<and> loadTasks (toggleTask today i s)
            = (loadTasks s)[k := (loadTasks s ! k)\<lparr>task_done := \<not> task_done (loadTasks s ! k)\<rparr>]"
    using toggleFound_update [OF assms] by (simp add: toggleTask_def loadTasks_saveTasks)
qed

text \<open>Instance: toggling the open task \<open>b2\<close> of three, once and twice.\<close>

theorem toggleTask_involution_witness:
  "''b2'' \<in> task_id ` set (loadTasks threeTasksState)
   \<and> loadTasks (toggleTask 20759 ''b2'' threeTasksState)
       = [taskA, taskB\<lparr>task_done := True\<rparr>, taskC]
   \<and> loadTasks (toggleTask 20759 ''b2'' (toggleTask 20759 ''b2'' threeTasksState))
       = [taskA, taskB, taskC]"
  using toggleTask_involution [of "''b2''" threeTasksState 20759 20759]
  by (simp add: loadTasks_three toggleTask_def loadTasks_saveTasks taskA_def taskB_def taskC_def)

lemma deleteLastLoop_None:
  "n \<le> length ts \<Longrightarrow> (deleteLastLoop ts n = None) = (\<forall>j<n. task_done (ts ! j))"
  by (induction n) (auto simp: less_Suc_eq)

lemma deleteLastLoop_Some:
  "n \<le> length ts \<Longrightarrow> \<exists>j<n. \<not> task_done (ts ! j) \<Longrightarrow>
     \<exists>k<n. \<not> task_done (ts ! k) \<and> (\<forall>j. k < j \<and> j < n \<longrightarrow> task_done (ts ! j))
        \<and> deleteLastLoop ts n = Some (take k ts @ drop (Suc k) ts)"
proof (induction n)
  case 0
  then show ?case by simp
next
  case (Suc n)
  show ?case
  proof (cases "task_done (ts ! n)")
    case False
    then show ?thesis by (intro exI [of _ n]) auto
  next
    case True
    with Suc.prems have "\<exists>j<n. \<not> task_done (ts ! j)"
      by (auto simp: less_Suc_eq)
    with Suc obtain k where k: "k < n" "\<not> task_done (ts ! k)"
      "\<forall>j. k < j \<and> j < n \<longrightarrow> task_done (ts ! j)"
      "deleteLastLoop ts n = Some (take k ts @ drop (Suc k) ts)"
      by auto
    have "\<forall>j. k < j \<and> j < Suc n \<longrightarrow> task_done (ts ! j)"
      using k(3) True by (auto simp: less_Suc_eq)
    with k True show ?thesis
      by (intro exI [of _ k]) simp
  qed
qed

lemma filter_done_remove:
  assumes "k < length ts" "\<not> task_done (ts ! k)"
  shows "filter task_done (take k ts @ drop (Suc k) ts) = filter task_done ts"
proof -
  have "ts = take k ts @ ts ! k # drop (Suc k) ts"
    using assms(1) by (rule id_take_nth_drop)
  then have "filter task_done ts = filter task_done (take k ts @ ts ! k # drop (Suc k) ts)"
    by simp
  also have "\<dots> = filter task_done (take k ts @ drop (Suc k) ts)"
    using assms(2) by simp
  finally show ?thesis by simp
qed

text \<open>
  C7. When the task list holds a task that is not done, \<open>deleteLastTask\<close> removes exactly
  one element: the task at the greatest index \<open>k\<close> whose task is not done (every task
  after it is done). The list loses nothing else, and the done tasks are the same
  before and after, those behind \<open>k\<close> included.
\<close>

theorem deleteLastTask_removes_last_open:
  assumes "\<exists>t\<in>set (loadTasks s). \<not> task_done t"
  shows "\<exists>k<length (loadTasks s).
           \<not> task_done (loadTasks s ! k)
         \<and> (\<forall>j. k < j \<and> j < length (loadTasks s) \<longrightarrow> task_done (loadTasks s ! j))
         \<and> loadTasks (deleteLastTask today s) = take k (loadTasks s) @ drop (Suc k) (loadTasks s)
         \<and> length (loadTasks (deleteLastTask today s)) = length (loadTasks s) - 1
         \<and> filter task_done (loadTasks (deleteLastTask today s)) = filter task_done (loadTasks s)"
proof -
  from assms have "\<exists>j<length (loadTasks s). \<not> task_done (loadTasks s ! j)"
    by (auto simp: in_set_conv_nth)
  with deleteLastLoop_Some [of "length (loadTasks s)" "loadTasks s"]
  obtain k where k: "k < length (loadTasks s)" "\<not> task_done (loadTasks s ! k)"
      "\<forall>j. k < j \<and> j < length (loadTasks s) \<longrightarrow> task_done (loadTasks s ! j)"
      "deleteLastLoop (loadTasks s) (length (loadTasks s))
         = Some (take k (loadTasks s) @ drop (Suc k) (loadTasks s))"
    by auto
  have res: "loadTasks (deleteLastTask today s) = take k (loadTasks s) @ drop (Suc k) (loadTasks s)"
    using k(4) by (simp add: deleteLastTask_def loadTasks_saveTasks)
  have "length (loadTasks (deleteLastTask today s)) = length (loadTasks s) - 1"
    using k(1) by (simp add: res)
  moreover have "filter task_done (loadTasks (deleteLastTask today s)) = filter task_done (loadTasks s)"
    using filter_done_remove [OF k(1,2)] by (simp add: res)
  ultimately show ?thesis using k(1,2,3) res by blast
qed

lemma deleteLastTask_none_open:
  "\<forall>t\<in>set (loadTasks s). task_done t \<Longrightarrow> deleteLastTask today s = s"
proof -
  assume "\<forall>t\<in>set (loadTasks s). task_done t"
  then have "\<forall>j<length (loadTasks s). task_done (loadTasks s ! j)" by simp
  then have "deleteLastLoop (loadTasks s) (length (loadTasks s)) = None"
    by (simp add: deleteLastLoop_None)
  then show ?thesis by (simp add: deleteLastTask_def)
qed


text \<open>Instance: of the tasks done, open, done the open one goes, the done one after it stays.\<close>

theorem deleteLastTask_removes_last_open_witness:
  "\<not> task_done taskB \<and> taskB \<in> set (loadTasks threeTasksState)
   \<and> loadTasks (deleteLastTask 20759 threeTasksState) = [taskA, taskC]
   \<and> filter task_done (loadTasks (deleteLastTask 20759 threeTasksState)) = [taskA, taskC]"
  using deleteLastTask_removes_last_open [of threeTasksState 20759]
  by (simp add: loadTasks_three deleteLastTask_def loadTasks_saveTasks taskA_def taskB_def
      taskC_def numeral_3_eq_3)

lemma trim_Nil_iff: "trim s = [] \<longleftrightarrow> (\<forall>c\<in>set s. isWhiteSpace c)"
proof
  assume "trim s = []"
  then have all: "\<forall>c\<in>set (dropWhile isWhiteSpace s). isWhiteSpace c"
    unfolding trim_def rev_is_Nil_conv dropWhile_eq_Nil_conv set_rev .
  have "dropWhile isWhiteSpace s = []"
  proof (rule ccontr)
    assume ne: "dropWhile isWhiteSpace s \<noteq> []"
    then have "\<not> isWhiteSpace (hd (dropWhile isWhiteSpace s))"
      by (rule hd_dropWhile)
    moreover have "hd (dropWhile isWhiteSpace s) \<in> set (dropWhile isWhiteSpace s)"
      using ne by (rule hd_in_set)
    ultimately show False using all by blast
  qed
  then show "\<forall>c\<in>set s. isWhiteSpace c"
    unfolding dropWhile_eq_Nil_conv .
next
  assume "\<forall>c\<in>set s. isWhiteSpace c"
  then have e: "dropWhile isWhiteSpace s = []"
    unfolding dropWhile_eq_Nil_conv .
  show "trim s = []"
    unfolding trim_def e by simp
qed

lemma trim_last: "trim s \<noteq> [] \<Longrightarrow> \<not> isWhiteSpace (last (trim s))"
proof -
  assume ne: "trim s \<noteq> []"
  then have ne': "dropWhile isWhiteSpace (rev (dropWhile isWhiteSpace s)) \<noteq> []"
    by (simp add: trim_def)
  then have "\<not> isWhiteSpace (hd (dropWhile isWhiteSpace (rev (dropWhile isWhiteSpace s))))"
    by (rule hd_dropWhile)
  then show ?thesis
    using ne' by (simp add: trim_def last_rev)
qed

lemma trim_prefix:
  "\<exists>n. trim s = take n (dropWhile isWhiteSpace s)"
proof -
  obtain m where "dropWhile isWhiteSpace (rev (dropWhile isWhiteSpace s))
      = drop m (rev (dropWhile isWhiteSpace s))"
    using dropWhile_eq_drop by blast
  then have "trim s = take (length (dropWhile isWhiteSpace s) - m) (dropWhile isWhiteSpace s)"
    by (simp add: trim_def rev_drop)
  then show ?thesis ..
qed

lemma trim_hd: "trim s \<noteq> [] \<Longrightarrow> \<not> isWhiteSpace (hd (trim s))"
proof -
  assume ne: "trim s \<noteq> []"
  obtain n where n: "trim s = take n (dropWhile isWhiteSpace s)"
    using trim_prefix by blast
  with ne have "0 < n" and ne': "dropWhile isWhiteSpace s \<noteq> []"
    by (auto intro: gr0I)
  then have "hd (trim s) = hd (dropWhile isWhiteSpace s)"
    by (simp add: n)
  moreover have "\<not> isWhiteSpace (hd (dropWhile isWhiteSpace s))"
    using ne' by (rule hd_dropWhile)
  ultimately show ?thesis by simp
qed

lemma trim_fixed:
  assumes "s \<noteq> []" "\<not> isWhiteSpace (hd s)" "\<not> isWhiteSpace (last s)"
  shows "trim s = s"
proof -
  have 1: "dropWhile isWhiteSpace s = s"
    using assms(1,2) by (cases s) auto
  have "rev s \<noteq> []" "\<not> isWhiteSpace (hd (rev s))"
    using assms(1,3) by (simp_all add: hd_rev)
  then have 2: "dropWhile isWhiteSpace (rev s) = rev s"
    by (cases "rev s") auto
  show ?thesis by (simp add: trim_def 1 2)
qed

lemma trim_idem: "trim (trim s) = trim s"
proof (cases "trim s = []")
  case True
  have "trim [] = []" by (simp add: trim_def)
  with True show ?thesis by (simp only:)
next
  case False
  then show ?thesis by (intro trim_fixed trim_hd trim_last)
qed

lemma trim_decompose:
  "\<exists>pre post. s = pre @ trim s @ post
      \<and> (\<forall>c\<in>set pre. isWhiteSpace c) \<and> (\<forall>c\<in>set post. isWhiteSpace c)"
proof -
  let ?u = "dropWhile isWhiteSpace s"
  have s: "s = takeWhile isWhiteSpace s @ ?u" by simp
  have "rev (trim s @ rev (takeWhile isWhiteSpace (rev ?u)))
      = takeWhile isWhiteSpace (rev ?u) @ dropWhile isWhiteSpace (rev ?u)"
    by (simp add: trim_def)
  also have "\<dots> = rev ?u"
    by (rule takeWhile_dropWhile_id)
  finally have u: "?u = trim s @ rev (takeWhile isWhiteSpace (rev ?u))"
    unfolding rev_is_rev_conv by (rule sym)
  have "s = takeWhile isWhiteSpace s @ trim s @ rev (takeWhile isWhiteSpace (rev ?u))"
    using s u by metis
  moreover have "\<forall>c\<in>set (takeWhile isWhiteSpace s). isWhiteSpace c"
    by (auto dest: set_takeWhileD)
  moreover have "\<forall>c\<in>set (rev (takeWhile isWhiteSpace (rev ?u))). isWhiteSpace c"
    by (auto dest: set_takeWhileD)
  ultimately show ?thesis by blast
qed

lemma toggleFound_texts: "map task_text (toggleFound i ts) = map task_text ts"
  by (induction ts) auto

lemma textInvariant_texts:
  "textInvariant ts = (\<forall>x\<in>set (map task_text ts). x \<noteq> [] \<and> trim x = x)"
  by (auto simp: textInvariant_def)

lemma textInvariant_toggle: "textInvariant ts \<Longrightarrow> textInvariant (toggleFound i ts)"
  by (simp only: textInvariant_texts toggleFound_texts)

lemma textInvariant_filter: "textInvariant ts \<Longrightarrow> textInvariant (filter P ts)"
  by (simp add: textInvariant_def)

lemma textInvariant_deleteLast:
  "textInvariant ts \<Longrightarrow> deleteLastLoop ts n = Some ts' \<Longrightarrow> textInvariant ts'"
proof (induction n)
  case 0
  then show ?case by simp
next
  case (Suc n)
  show ?case
  proof (cases "task_done (ts ! n)")
    case True
    with Suc show ?thesis by simp
  next
    case False
    with Suc.prems(2) have "ts' = take n ts @ drop (Suc n) ts" by simp
    then have "set ts' \<subseteq> set ts"
      by (auto dest: in_set_takeD in_set_dropD)
    with Suc.prems(1) show ?thesis
      by (auto simp: textInvariant_def)
  qed
qed

lemma textInvariant_add:
  "textInvariant ts \<Longrightarrow> trim txt \<noteq> [] \<Longrightarrow> textInvariant (ts @ [createTask newId now txt])"
  by (simp add: textInvariant_def createTask_def trim_idem)

text \<open>
  C10. \<open>addTask\<close> with a text that is empty or all white space returns the state it was
  given: no task, nothing stored, no message. With any other text the task list grows by
  one task at its end, not done, whose text is \<open>trim\<close> of the input: the input without a
  prefix and a suffix of white space, not empty, and neither starting nor ending in
  white space. Every operation on the task list keeps the invariant that each task's
  text is not empty and trimmed.
\<close>

theorem addTask_blank_and_text_invariant:
  "((\<forall>c\<in>set txt. isWhiteSpace c) \<longrightarrow> addTask today newId now txt s = s)
   \<and> (\<not> (\<forall>c\<in>set txt. isWhiteSpace c) \<longrightarrow>
        loadTasks (addTask today newId now txt s)
          = loadTasks s @ [\<lparr>task_id = newId, task_text = trim txt, task_done = False,
                            task_createdAt = now\<rparr>]
        \<and> trim txt \<noteq> []
        \<and> \<not> isWhiteSpace (hd (trim txt)) \<and> \<not> isWhiteSpace (last (trim txt)))
   \<and> (\<exists>pre post. txt = pre @ trim txt @ post
          \<and> (\<forall>c\<in>set pre. isWhiteSpace c) \<and> (\<forall>c\<in>set post. isWhiteSpace c))
   \<and> (textInvariant (loadTasks s) \<longrightarrow>
        textInvariant (loadTasks (addTask today newId now txt s))
      \<and> textInvariant (loadTasks (toggleTask today i s))
      \<and> textInvariant (loadTasks (deleteTask today i s))
      \<and> textInvariant (loadTasks (clearCompleted today s))
      \<and> textInvariant (loadTasks (deleteLastTask today s)))"
proof (intro conjI impI)
  assume "\<forall>c\<in>set txt. isWhiteSpace c"
  then show "addTask today newId now txt s = s"
    by (simp add: addTask_def trim_Nil_iff)
next
  assume "\<not> (\<forall>c\<in>set txt. isWhiteSpace c)"
  then have ne: "trim txt \<noteq> []"
    by (simp add: trim_Nil_iff)
  then show "loadTasks (addTask today newId now txt s)
          = loadTasks s @ [\<lparr>task_id = newId, task_text = trim txt, task_done = False,
                            task_createdAt = now\<rparr>]"
    by (simp add: addTask_def loadTasks_saveTasks createTask_def)
  show "trim txt \<noteq> []" by (rule ne)
  show "\<not> isWhiteSpace (hd (trim txt))" using ne by (rule trim_hd)
  show "\<not> isWhiteSpace (last (trim txt))" using ne by (rule trim_last)
next
  show "\<exists>pre post. txt = pre @ trim txt @ post
          \<and> (\<forall>c\<in>set pre. isWhiteSpace c) \<and> (\<forall>c\<in>set post. isWhiteSpace c)"
    by (rule trim_decompose)
next
  assume inv: "textInvariant (loadTasks s)"
  show "textInvariant (loadTasks (addTask today newId now txt s))"
    using inv by (simp add: addTask_def loadTasks_saveTasks textInvariant_add)
  show "textInvariant (loadTasks (toggleTask today i s))"
    using inv by (simp add: toggleTask_def loadTasks_saveTasks textInvariant_toggle)
  show "textInvariant (loadTasks (deleteTask today i s))"
    using inv by (simp add: deleteTask_def loadTasks_saveTasks textInvariant_filter)
  show "textInvariant (loadTasks (clearCompleted today s))"
    using inv by (simp add: clearCompleted_def loadTasks_saveTasks textInvariant_filter)
  show "textInvariant (loadTasks (deleteLastTask today s))"
    using inv
    by (auto simp: deleteLastTask_def loadTasks_saveTasks
             split: option.splits dest: textInvariant_deleteLast)
qed


text \<open>
  Instance: a blank input of a space, a no-break space, a line separator and an
  ideographic space; and the input \<open>buy milk\<close> with an ideographic space and a space
  before it and an em space and a byte order mark after it. The zero width space U+200B
  is no white space.
\<close>

lemma ascii_buy_milk: "ascii ''buy milk'' = [98, 117, 121, 32, 109, 105, 108, 107]"
  by (simp add: ascii_def)

lemma trim_buy_milk:
  "trim [12288, 32, 98, 117, 121, 32, 109, 105, 108, 107, 8195, 65279]
     = [98, 117, 121, 32, 109, 105, 108, 107]"
  by (simp add: trim_def isWhiteSpace_def)

lemma textInvariant_three: "textInvariant (loadTasks threeTasksState)"
  by (simp add: loadTasks_three textInvariant_def taskA_def taskB_def taskC_def trim_def
      isWhiteSpace_def ascii_def)

theorem addTask_blank_and_text_invariant_witness:
  "addTask 20759 ''d4'' ''2026-11-02T09:00:00.000Z'' [32, 160, 8232, 12288] threeTasksState
     = threeTasksState
   \<and> loadTasks (addTask 20759 ''d4'' ''2026-11-02T09:00:00.000Z''
         ([12288, 32] @ ascii ''buy milk'' @ [8195, 65279]) threeTasksState)
       = [taskA, taskB, taskC,
          \<lparr>task_id = ''d4'', task_text = [98, 117, 121, 32, 109, 105, 108, 107],
           task_done = False, task_createdAt = ''2026-11-02T09:00:00.000Z''\<rparr>]
   \<and> \<not> isWhiteSpace 8203
   \<and> textInvariant (loadTasks threeTasksState)
   \<and> textInvariant
        (loadTasks (addTask 20759 ''d4'' ''2026-11-02T09:00:00.000Z''
           ([12288, 32] @ ascii ''buy milk'' @ [8195, 65279]) threeTasksState))"
proof (intro conjI)
  show "addTask 20759 ''d4'' ''2026-11-02T09:00:00.000Z'' [32, 160, 8232, 12288] threeTasksState
     = threeTasksState"
    using addTask_blank_and_text_invariant
            [of "[32, 160, 8232, 12288]" 20759 "''d4''" "''2026-11-02T09:00:00.000Z''"
               threeTasksState]
    by (simp add: isWhiteSpace_def)
  show "loadTasks (addTask 20759 ''d4'' ''2026-11-02T09:00:00.000Z''
         ([12288, 32] @ ascii ''buy milk'' @ [8195, 65279]) threeTasksState)
       = [taskA, taskB, taskC,
          \<lparr>task_id = ''d4'', task_text = [98, 117, 121, 32, 109, 105, 108, 107],
           task_done = False, task_createdAt = ''2026-11-02T09:00:00.000Z''\<rparr>]"
    using addTask_blank_and_text_invariant
            [of "[12288, 32] @ ascii ''buy milk'' @ [8195, 65279]" 20759 "''d4''"
               "''2026-11-02T09:00:00.000Z''" threeTasksState]
    by (simp add: trim_buy_milk loadTasks_three isWhiteSpace_def ascii_buy_milk)
  show "\<not> isWhiteSpace 8203"
    by (simp add: isWhiteSpace_def)
  show "textInvariant (loadTasks threeTasksState)"
    by (rule textInvariant_three)
  show "textInvariant
        (loadTasks (addTask 20759 ''d4'' ''2026-11-02T09:00:00.000Z''
           ([12288, 32] @ ascii ''buy milk'' @ [8195, 65279]) threeTasksState))"
    using addTask_blank_and_text_invariant
            [of "[12288, 32] @ ascii ''buy milk'' @ [8195, 65279]" 20759 "''d4''"
               "''2026-11-02T09:00:00.000Z''" threeTasksState]
          textInvariant_three
    by blast
qed

section \<open>Properties of the service worker\<close>

lemma of_char_digit: "d < 10 \<Longrightarrow> of_char (char_of (48 + d :: nat)) = (48 + d :: nat)"
  by simp

lemma decimalValue_snoc:
  "decimalValue (s @ [c]) = 10 * decimalValue s + (of_char c - 48)"
  by (simp add: decimalValue_def)

lemma decimalValue_digitsOf: "decimalValue (digitsOf n) = n"
proof (induction n rule: digitsOf.induct)
  case (1 n)
  show ?case
  proof (cases "n < 10")
    case True
    then show ?thesis
      by (subst digitsOf.simps) (simp add: decimalValue_def of_char_digit)
  next
    case False
    then have "decimalValue (digitsOf n) = 10 * decimalValue (digitsOf (n div 10)) + n mod 10"
      by (subst digitsOf.simps) (simp add: decimalValue_snoc of_char_digit)
    with 1 False show ?thesis by simp
  qed
qed

lemma digitsOf_digits: "list_all isDigit (digitsOf n)"
proof (induction n rule: digitsOf.induct)
  case (1 n)
  show ?case
  proof (cases "n < 10")
    case True
    then show ?thesis
      by (subst digitsOf.simps) (simp add: isDigit_def of_char_digit)
  next
    case False
    have "isDigit (char_of (48 + n mod 10))"
      by (simp add: isDigit_def of_char_digit)
    with 1 False show ?thesis
      by (subst digitsOf.simps) simp
  qed
qed

lemma digitsOf_nonempty: "digitsOf n \<noteq> []"
  by (subst digitsOf.simps) simp

lemma digitsOf_hd: "0 < n \<Longrightarrow> hd (digitsOf n) \<noteq> CHR ''0''"
proof (induction n rule: digitsOf.induct)
  case (1 n)
  show ?case
  proof (cases "n < 10")
    case True
    have "of_char (hd (digitsOf n)) = (48 + n)"
      using True by (subst digitsOf.simps) (simp add: of_char_digit)
    moreover have "of_char (CHR ''0'') = (48::nat)" by simp
    ultimately show ?thesis using 1(2) by (metis add_cancel_right_right less_numeral_extra(3))
  next
    case False
    then have "0 < n div 10" by simp
    with 1 False have "hd (digitsOf (n div 10)) \<noteq> CHR ''0''" by simp
    then show ?thesis
      using False digitsOf_nonempty [of "n div 10"] by (subst digitsOf.simps) simp
  qed
qed

lemma numberToString_pos: "0 < c \<Longrightarrow> numberToString c = digitsOf (nat c)"
  by (simp add: numberToString_def)

text \<open>
  C8. For a message of type \<open>UPDATE_BADGE\<close>, the listener sets the badge text to the
  empty string when \<open>count\<close> is absent (\<open>null\<close> or \<open>undefined\<close>) or 0, and to the decimal
  numeral of \<open>count\<close> when \<open>count\<close> is positive: a string of digits without a leading
  zero whose value is \<open>count\<close>. The counts are the integers below \<open>2^53\<close>, which a
  number holds exactly and \<open>String\<close> writes digit by digit; the page sends the length of
  an array, which is below \<open>2^32\<close>.
\<close>

theorem onMessage_badge_text:
  assumes "msg_type msg = ''UPDATE_BADGE''"
  shows "(msg_count msg = None \<longrightarrow> badge_text (onMessage msg b) = [])
    \<and> (msg_count msg = Some 0 \<longrightarrow> badge_text (onMessage msg b) = [])
    \<and> (\<forall>c. msg_count msg = Some c \<and> 0 < c \<and> c < 2 ^ 53 \<longrightarrow>
          badge_text (onMessage msg b) = numberToString c
        \<and> int (decimalValue (badge_text (onMessage msg b))) = c
        \<and> list_all isDigit (badge_text (onMessage msg b))
        \<and> hd (badge_text (onMessage msg b)) \<noteq> CHR ''0'')"
proof (intro conjI impI allI)
  assume "msg_count msg = None"
  with assms show "badge_text (onMessage msg b) = []"
    by (simp add: onMessage_def)
next
  assume "msg_count msg = Some 0"
  with assms show "badge_text (onMessage msg b) = []"
    by (simp add: onMessage_def)
next
  fix c assume c: "msg_count msg = Some c \<and> 0 < c \<and> c < 2 ^ 53"
  with assms have t: "badge_text (onMessage msg b) = digitsOf (nat c)"
    by (simp add: onMessage_def numberToString_pos)
  show "badge_text (onMessage msg b) = numberToString c"
    using c t by (simp add: numberToString_pos)
  show "int (decimalValue (badge_text (onMessage msg b))) = c"
    using c by (simp add: t decimalValue_digitsOf)
  show "list_all isDigit (badge_text (onMessage msg b))"
    by (simp only: t digitsOf_digits)
  show "hd (badge_text (onMessage msg b)) \<noteq> CHR ''0''"
    using c by (simp add: t digitsOf_hd)
qed

text \<open>
  Instances: the counts 12, 0 and \<open>null\<close>, on a badge that showed 7, and the largest count
  below \<open>2^53\<close>.
\<close>

lemma digitsOf_12: "digitsOf 12 = ''12''"
  by code_simp

lemma char_of_digits:
  "char_of (48::nat) = CHR ''0'' \<and> char_of (49::nat) = CHR ''1'' \<and> char_of (50::nat) = CHR ''2''
   \<and> char_of (51::nat) = CHR ''3'' \<and> char_of (52::nat) = CHR ''4'' \<and> char_of (53::nat) = CHR ''5''
   \<and> char_of (54::nat) = CHR ''6'' \<and> char_of (55::nat) = CHR ''7'' \<and> char_of (56::nat) = CHR ''8''
   \<and> char_of (57::nat) = CHR ''9''"
  by code_simp

lemma digitsOf_largest: "digitsOf 9007199254740991 = ''9007199254740991''"
  by (simp add: digitsOf.simps char_of_digits)

theorem onMessage_badge_text_witness:
  "msg_type \<lparr>msg_type = ''UPDATE_BADGE'', msg_count = Some 12\<rparr> = ''UPDATE_BADGE''
   \<and> badge_text (onMessage \<lparr>msg_type = ''UPDATE_BADGE'', msg_count = Some 12\<rparr> oldBadge) = ''12''
   \<and> badge_text (onMessage \<lparr>msg_type = ''UPDATE_BADGE'', msg_count = Some 0\<rparr> oldBadge) = []
   \<and> badge_text (onMessage \<lparr>msg_type = ''UPDATE_BADGE'', msg_count = None\<rparr> oldBadge) = []
   \<and> (9007199254740991::int) < 2 ^ 53
   \<and> badge_text (onMessage \<lparr>msg_type = ''UPDATE_BADGE'', msg_count = Some 9007199254740991\<rparr>
         oldBadge) = ''9007199254740991''"
  using onMessage_badge_text [of "\<lparr>msg_type = ''UPDATE_BADGE'', msg_count = Some 12\<rparr>" oldBadge]
    onMessage_badge_text [of "\<lparr>msg_type = ''UPDATE_BADGE'', msg_count = Some 0\<rparr>" oldBadge]
    onMessage_badge_text [of "\<lparr>msg_type = ''UPDATE_BADGE'', msg_count = None\<rparr>" oldBadge]
    onMessage_badge_text
      [of "\<lparr>msg_type = ''UPDATE_BADGE'', msg_count = Some 9007199254740991\<rparr>" oldBadge]
  by (simp add: numberToString_def digitsOf_12 digitsOf_largest)

section \<open>Properties of the calendar view\<close>















end
